theory Spec2Isabelle
  imports Main "HOL-Library.AList"
begin

section \<open>Python strings and cells\<close>

text \<open>
  A Python \<open>str\<close> is a sequence of Unicode code points, so a string is a list of
  natural numbers here and \<open>length\<close> counts what \<open>len\<close> counts. ASCII literals are
  written \<open>U ''...''\<close>; the em dash of the sentinel sets is the code point 8212.
\<close>

type_synonym pystr = "nat list"

definition U :: "string \<Rightarrow> pystr" where
  "U s = map of_char s"

definition emdash :: pystr where
  "emdash = [8212]"

text \<open>\<open>str.isspace\<close> on one code point: the white space \<open>str.strip()\<close> and
  \<open>str.split()\<close> remove.\<close>

definition is_space :: "nat \<Rightarrow> bool" where
  "is_space c \<longleftrightarrow>
     (9 \<le> c \<and> c \<le> 13) \<or> (28 \<le> c \<and> c \<le> 32) \<or> c = 133 \<or> c = 160 \<or> c = 5760
     \<or> (8192 \<le> c \<and> c \<le> 8202) \<or> c = 8232 \<or> c = 8233 \<or> c = 8239 \<or> c = 8287
     \<or> c = 12288"

definition py_strip :: "pystr \<Rightarrow> pystr" where
  "py_strip s = rev (dropWhile is_space (rev (dropWhile is_space s)))"

text \<open>
  A cell of the data frame: \<open>None\<close> (a column that is missing), NaN (an empty
  cell as pandas reads it) or a value, represented by the text \<open>str(value)\<close> gives.
\<close>

datatype cell = PyNone | NaN | Str pystr

definition py_str :: "cell \<Rightarrow> pystr" where
  "py_str c = (case c of PyNone \<Rightarrow> U ''None'' | NaN \<Rightarrow> U ''nan'' | Str v \<Rightarrow> v)"

section \<open>Cell normalizer\<close>

definition sanitize_empty :: "pystr set" where
  "sanitize_empty = {emdash, U ''-'', U ''__'', U ''_'', U '''', U ''N/A'', U ''n/a'',
     U ''nan'', U ''None''}"

definition sanitize :: "cell \<Rightarrow> pystr option" where
  "sanitize v =
     (case v of
        PyNone \<Rightarrow> None
      | NaN \<Rightarrow> None
      | Str t \<Rightarrow> (let s = py_strip t in if s \<in> sanitize_empty then None else Some s))"

section \<open>Field parsers: chips\<close>

text \<open>\<open>s.split(sep)\<close> for a separator of one code point: always at least one piece.\<close>

fun py_split :: "nat \<Rightarrow> pystr \<Rightarrow> pystr list" where
  "py_split c [] = [[]]"
| "py_split c (x # xs) =
     (if x = c then [] # py_split c xs
      else (case py_split c xs of [] \<Rightarrow> [[x]] | w # ws \<Rightarrow> (x # w) # ws))"

text \<open>
  \<open>s.replace(old, new)\<close>: occurrences of \<open>old\<close> are replaced from the left and do not
  overlap. Every call of the source passes a non-empty \<open>old\<close>; for an empty one this
  function returns \<open>s\<close>.
\<close>

fun py_replace :: "pystr \<Rightarrow> pystr \<Rightarrow> pystr \<Rightarrow> pystr" where
  "py_replace old new [] = []"
| "py_replace old new (x # xs) =
     (if old \<noteq> [] \<and> take (length old) (x # xs) = old
      then new @ py_replace old new (drop (length old - 1) xs)
      else x # py_replace old new xs)"

definition dq :: nat where
  "dq = 34"

definition strip_wrapping_quotes :: "pystr \<Rightarrow> pystr" where
  "strip_wrapping_quotes s0 =
     (let s = py_strip s0;
          s = py_replace [dq, dq] [dq] s
      in if 2 \<le> length s \<and> hd s = dq \<and> last s = dq then butlast (tl s) else s)"

definition chip_empty :: "pystr set" where
  "chip_empty = {emdash, U ''-'', U ''__'', U ''_''}"

text \<open>The choice of separator: newline (code point 10), else semicolon (59), else
  the whole cell.\<close>

definition chip_parts :: "pystr \<Rightarrow> pystr list" where
  "chip_parts raw =
     (if 10 \<in> set raw then py_split 10 raw
      else if 59 \<in> set raw then py_split 59 raw
      else [raw])"

text \<open>The loop over the parts, appending to \<open>chips\<close>.\<close>

fun collect_chips :: "pystr list \<Rightarrow> pystr list \<Rightarrow> pystr list" where
  "collect_chips [] chips = chips"
| "collect_chips (p0 # ps) chips =
     (let p = py_strip p0 in
      if p = [] then collect_chips ps chips
      else
        let p = py_replace [dq, dq] [dq] p;
            p = strip_wrapping_quotes p
        in if p \<noteq> [] \<and> p \<notin> chip_empty then collect_chips ps (chips @ [p])
           else collect_chips ps chips)"

text \<open>The loop that removes duplicates, with its \<open>seen\<close> set and \<open>out\<close> list.\<close>

fun dedupe_chips :: "pystr list \<Rightarrow> pystr set \<Rightarrow> pystr list \<Rightarrow> pystr list" where
  "dedupe_chips [] seen out = out"
| "dedupe_chips (c # cs) seen out =
     (if c \<notin> seen then dedupe_chips cs (insert c seen) (out @ [c])
      else dedupe_chips cs seen out)"

definition parse_chips :: "cell \<Rightarrow> pystr list" where
  "parse_chips chips_cell =
     (if chips_cell = PyNone then []
      else
        let raw = py_strip (py_str chips_cell) in
        if raw = [] \<or> raw \<in> insert [] chip_empty then []
        else dedupe_chips (collect_chips (chip_parts raw) []) {} [])"

text \<open>
  The chip parser as the spec words it, for comparison: each candidate is trimmed, has
  doubled quotes collapsed, has one layer of wrapping quotes removed, and is dropped
  if it is empty or a sentinel token, the sentinel tokens being those the spec lists
  for the cell normalizer; duplicates go, the first occurrence stays.
\<close>

definition unquote_once :: "pystr \<Rightarrow> pystr" where
  "unquote_once s = (if 2 \<le> length s \<and> hd s = dq \<and> last s = dq then butlast (tl s) else s)"

definition collapse_quotes :: "pystr \<Rightarrow> pystr" where
  "collapse_quotes s = py_replace [dq, dq] [dq] s"

definition first_occurrences :: "'a list \<Rightarrow> 'a list" where
  "first_occurrences xs = rev (remdups (rev xs))"

definition sentinel_token :: "pystr \<Rightarrow> bool" where
  "sentinel_token t \<longleftrightarrow>
     t = emdash \<or> t = U ''-'' \<or> t = U ''__'' \<or> t = U ''_'' \<or> t = [] \<or> t = U ''N/A''
     \<or> t = U ''n/a'' \<or> t = U ''nan'' \<or> t = U ''None''"

definition spec_parse_chips :: "pystr \<Rightarrow> pystr list" where
  "spec_parse_chips cell_text =
     first_occurrences
       (filter (\<lambda>p. p \<noteq> [] \<and> \<not> sentinel_token p)
          (map (\<lambda>p. unquote_once (collapse_quotes (py_strip p)))
             (chip_parts (py_strip cell_text))))"

text \<open>A string with no white space at either end: what \<open>str.strip()\<close> returns.\<close>

definition stripped :: "pystr \<Rightarrow> bool" where
  "stripped s \<longleftrightarrow> s = [] \<or> (\<not> is_space (hd s) \<and> \<not> is_space (last s))"

section \<open>Field parsers: next pages\<close>

definition next_empty :: "pystr set" where
  "next_empty = {emdash, U ''-'', U ''__'', U ''_'', U ''N/A'', U ''n/a''}"

definition startswith :: "pystr \<Rightarrow> pystr \<Rightarrow> bool" where
  "startswith s p \<longleftrightarrow> take (length p) s = p"

text \<open>\<open>[t.strip() for t in s.split(sep) if t.strip()]\<close>\<close>

definition split_targets :: "nat \<Rightarrow> pystr \<Rightarrow> pystr list" where
  "split_targets sep s = map py_strip (filter (\<lambda>t. py_strip t \<noteq> []) (py_split sep s))"

text \<open>The loop that fills \<open>cleaned_targets\<close>.\<close>

fun clean_targets :: "pystr list \<Rightarrow> pystr option list \<Rightarrow> pystr option list" where
  "clean_targets [] cleaned = cleaned"
| "clean_targets (t # ts) cleaned =
     (if t \<noteq> [] \<and> t \<notin> next_empty then clean_targets ts (cleaned @ [Some t])
      else clean_targets ts (cleaned @ [None]))"

text \<open>The \<open>while\<close> loop that pads \<open>cleaned_targets\<close> up to the chip count.\<close>

function pad_targets :: "pystr option list \<Rightarrow> nat \<Rightarrow> pystr option list" where
  "pad_targets cleaned chips_count =
     (if length cleaned < chips_count
      then pad_targets (cleaned @ [if cleaned \<noteq> [] then last cleaned else None]) chips_count
      else cleaned)"
  by pat_completeness auto
termination
  by (relation "measure (\<lambda>(cleaned, chips_count). chips_count - length cleaned)") auto

declare pad_targets.simps [simp del]

text \<open>The warning \<open>parse_next_pages\<close> prints: the two counts that do not match.\<close>

datatype warning = CountMismatch nat nat

text \<open>
  \<open>parse_next_pages\<close> returns the targets, one per chip, \<open>None\<close> for an end state;
  the model returns with them what the function prints. Code point 10 is the newline,
  47 the slash. No operation of the function can raise, so there is no error result.
\<close>

definition parse_next_pages :: "cell \<Rightarrow> nat \<Rightarrow> pystr option list \<times> warning list" where
  "parse_next_pages cell chips_count =
     (if cell = PyNone then (replicate chips_count None, [])
      else
        let s = py_strip (py_str cell) in
        if s = [] \<or> s \<in> next_empty then (replicate chips_count None, [])
        else
          let split =
                (if 10 \<in> set s then Some (split_targets 10 s)
                 else if 47 \<in> set s \<and> \<not> startswith s (U ''http'') then Some (split_targets 47 s)
                 else None)
          in case split of
               None \<Rightarrow> (replicate chips_count (Some s), [])
             | Some targets \<Rightarrow>
                 let cleaned_targets = clean_targets targets [] in
                 if length cleaned_targets = 1
                   then (concat (replicate chips_count cleaned_targets), [])
                 else if length cleaned_targets = chips_count then (cleaned_targets, [])
                 else (take chips_count (pad_targets cleaned_targets chips_count),
                       [CountMismatch (length cleaned_targets) chips_count]))"

text \<open>
  The targets a cell text resolves to, as the spec describes the next-page parser: the
  segments of a newline- or slash-separated cell, each a target, or none when it is one
  of the six end tokens, and the whole text as one target otherwise.
\<close>

definition end_token :: "pystr \<Rightarrow> bool" where
  "end_token t \<longleftrightarrow>
     t = emdash \<or> t = U ''-'' \<or> t = U ''__'' \<or> t = U ''_'' \<or> t = U ''N/A'' \<or> t = U ''n/a''"

definition resolved_targets :: "pystr \<Rightarrow> pystr option list" where
  "resolved_targets s =
     (if 10 \<in> set s then map (\<lambda>t. if end_token t then None else Some t) (split_targets 10 s)
      else if 47 \<in> set s \<and> \<not> startswith s (U ''http'')
        then map (\<lambda>t. if end_token t then None else Some t) (split_targets 47 s)
      else [Some s])"


text \<open>
  Cardinality reconciliation as the spec words it: one target is broadcast to every
  chip; as many targets as chips pair by position; otherwise the list is padded with
  its last element (none if it is empty), cut to the chip count, and a warning is given.
\<close>

definition spec_reconcile :: "pystr option list \<Rightarrow> nat \<Rightarrow> pystr option list \<times> warning list" where
  "spec_reconcile ts k =
     (if length ts = 1 then (replicate k (hd ts), [])
      else if length ts = k then (ts, [])
      else (take k (ts @ replicate (k - length ts) (if ts = [] then None else last ts)),
            [CountMismatch (length ts) k]))"

section \<open>Tag generator and identifiers\<close>

text \<open>
  \<open>str.lower()\<close> follows the Unicode case tables of the Python runtime, which are not
  part of the repository: the functions that lower-case take the lowering function as
  the parameter \<open>lower\<close>. \<open>ascii_lower\<close> is what \<open>str.lower()\<close> does on ASCII text.
\<close>

definition ascii_lower :: "pystr \<Rightarrow> pystr" where
  "ascii_lower s = map (\<lambda>c. if 65 \<le> c \<and> c \<le> 90 then c + 32 else c) s"

text \<open>\<open>s.split()\<close>: the maximal runs of code points that are not white space.\<close>

fun py_words_from :: "pystr \<Rightarrow> pystr \<Rightarrow> pystr list" where
  "py_words_from w [] = (if w = [] then [] else [w])"
| "py_words_from w (c # cs) =
     (if is_space c then (if w = [] then py_words_from [] cs else w # py_words_from [] cs)
      else py_words_from (w @ [c]) cs)"

definition py_words :: "pystr \<Rightarrow> pystr list" where
  "py_words s = py_words_from [] s"

text \<open>\<open>sep.join(ws)\<close>\<close>

fun py_join :: "pystr \<Rightarrow> pystr list \<Rightarrow> pystr" where
  "py_join sep [] = []"
| "py_join sep [w] = w"
| "py_join sep (w # v # ws) = w @ sep @ py_join sep (v # ws)"

text \<open>\<open>s.strip(chars)\<close> for the set of code points \<open>P\<close>.\<close>

definition py_strip_chars :: "(nat \<Rightarrow> bool) \<Rightarrow> pystr \<Rightarrow> pystr" where
  "py_strip_chars P s = rev (dropWhile P (rev (dropWhile P s)))"

text \<open>
  \<open>re.sub\<close> for the three patterns of the source. A pattern \<open>[^a-z0-9_]\<close> replaced by
  the empty string keeps the code points of the class; a pattern \<open>X+\<close> replaced by
  \<open>_\<close> puts one underscore (code point 95) for every maximal run of \<open>X\<close>.
\<close>

definition ident_char :: "nat \<Rightarrow> bool" where
  "ident_char c \<longleftrightarrow> (97 \<le> c \<and> c \<le> 122) \<or> (48 \<le> c \<and> c \<le> 57) \<or> c = 95"

definition re_sub_non_ident :: "pystr \<Rightarrow> pystr" where
  "re_sub_non_ident s = filter ident_char s"

fun re_sub_runs :: "(nat \<Rightarrow> bool) \<Rightarrow> pystr \<Rightarrow> pystr" where
  "re_sub_runs P [] = []"
| "re_sub_runs P [c] = (if P c then [95] else [c])"
| "re_sub_runs P (c # d # cs) =
     (if P c then (if P d then re_sub_runs P (d # cs) else 95 # re_sub_runs P (d # cs))
      else c # re_sub_runs P (d # cs))"

definition slugify :: "(pystr \<Rightarrow> pystr) \<Rightarrow> pystr \<Rightarrow> pystr" where
  "slugify lower s0 =
     (let s = py_strip (lower s0);
          s = re_sub_runs is_space s;
          s = re_sub_non_ident s;
          s = re_sub_runs (\<lambda>c. c = 95) s
      in py_strip_chars (\<lambda>c. c = 95) s)"

definition stopwords :: "pystr set" where
  "stopwords = {U ''for'', U ''the'', U ''and'', U ''or'', U ''with'', U ''from'', U ''to'',
     U ''a'', U ''an'', U ''in'', U ''on'', U ''at'', U ''of''}"

definition generate_webhook_tag :: "(pystr \<Rightarrow> pystr) \<Rightarrow> pystr option \<Rightarrow> pystr option" where
  "generate_webhook_tag lower action_text =
     (case action_text of
        None \<Rightarrow> None
      | Some a \<Rightarrow>
          if a = [] then None
          else
            let text = lower a;
                words = filter (\<lambda>w. w \<notin> stopwords) (py_words text);
                tag_words = take 4 words;
                tag = py_join (U ''_'') tag_words;
                tag = re_sub_non_ident tag;
                tag = re_sub_runs (\<lambda>c. c = 95) tag
            in Some (py_strip_chars (\<lambda>c. c = 95) tag))"

section \<open>Field parsers: parameters and triggers\<close>

text \<open>Truth of an optional string in a condition: \<open>None\<close> and the empty string are false.\<close>

definition truthy :: "pystr option \<Rightarrow> bool" where
  "truthy v = (case v of None \<Rightarrow> False | Some s \<Rightarrow> s \<noteq> [])"

text \<open>
  A Python dict is a list of pairs with distinct keys in insertion order: assigning to
  an existing key keeps its place, as \<open>AList.update\<close> does. The loop of
  \<open>parse_params\<close> over the pieces between commas (code point 44); 61 is \<open>=\<close>.
\<close>

fun params_loop :: "pystr list \<Rightarrow> (pystr \<times> pystr) list \<Rightarrow> (pystr \<times> pystr) list" where
  "params_loop [] result = result"
| "params_loop (pair0 # pairs) result =
     (let pair = py_strip pair0 in
      if pair = [] then params_loop pairs result
      else if 61 \<in> set pair
        then params_loop pairs
               (AList.update (py_strip (takeWhile (\<lambda>c. c \<noteq> 61) pair))
                  (py_strip (tl (dropWhile (\<lambda>c. c \<noteq> 61) pair))) result)
      else params_loop pairs (AList.update pair [] result))"

definition parse_params :: "pystr option \<Rightarrow> (pystr \<times> pystr) list" where
  "parse_params param_str =
     (case param_str of
        None \<Rightarrow> []
      | Some p \<Rightarrow> if p = [] then [] else params_loop (py_split 44 p) [])"

text \<open>58 is the colon; the result is the pair (trigger type, user example).\<close>

definition parse_trigger_and_example :: "pystr option \<Rightarrow> pystr option \<times> pystr option" where
  "parse_trigger_and_example trigger_raw =
     (case trigger_raw of
        None \<Rightarrow> (None, None)
      | Some t \<Rightarrow>
          if t = [] then (None, None)
          else if 58 \<in> set t then
            let trigger_type = py_strip (takeWhile (\<lambda>c. c \<noteq> 58) t);
                example = py_strip (tl (dropWhile (\<lambda>c. c \<noteq> 58) t));
                example = py_replace (U ''User says '') [] example;
                example = py_replace (U ''User responds with '') [] example;
                example = py_replace (U ''User denies '') [] example;
                example = py_replace (U ''User accepts '') [] example;
                example = strip_wrapping_quotes example
            in (Some trigger_type, Some example)
          else (Some (U ''Intent''), Some (strip_wrapping_quotes t)))"

section \<open>Graph compiler\<close>

text \<open>One row of the table: the cells of the columns the compiler reads. A column
  the file does not have gives \<open>PyNone\<close> in every row.\<close>

record row =
  col_page_name :: cell
  col_intent_name :: cell
  col_trigger :: cell
  col_bot_prompt :: cell
  col_next_page :: cell
  col_parameter_set :: cell
  col_webhook_action :: cell
  col_suggested_chips :: cell
  col_step :: cell
  col_next_step :: cell

record page_info =
  pg_prompts :: "pystr list"
  pg_chips :: "pystr list"
  pg_metadata :: "(pystr \<times> pystr) list"

record route =
  r_page :: pystr
  r_intent :: pystr
  r_next_page :: "pystr option"
  r_webhook_action :: "pystr option"
  r_parameters :: "(pystr \<times> pystr) list option"

text \<open>
  The dict \<open>data\<close> (a field \<open>d_k\<close> for its key \<open>k\<close>; the fields of a page are
  \<open>pg_k\<close>, of a route \<open>r_k\<close>), with the two sets the function keeps beside it. Python iterates
  the set \<open>all_pages\<close> in an order it does not specify; the model keeps its elements in
  the order of first insertion. \<open>warnings\<close> is what \<open>parse_next_pages\<close> printed.
\<close>

record data =
  d_pages :: "(pystr \<times> page_info) list"
  d_intents :: "(pystr \<times> pystr list) list"
  d_routes :: "route list"
  d_end_pages :: "pystr list"
  d_first_page :: "pystr option"
  d_webhooks :: "(pystr \<times> pystr) list"
  d_has_step_info :: bool
  pages_with_routes :: "pystr set"
  all_pages :: "pystr list"
  d_warnings :: "warning list"

definition cell_of :: "pystr option \<Rightarrow> cell" where
  "cell_of v = (case v of None \<Rightarrow> PyNone | Some s \<Rightarrow> Str s)"

text \<open>\<open>str(n)\<close> for a row index: its decimal digits.\<close>

function py_str_nat :: "nat \<Rightarrow> pystr" where
  "py_str_nat n = (if n < 10 then [48 + n] else py_str_nat (n div 10) @ [48 + n mod 10])"
  by pat_completeness auto
termination
  by (relation "measure id") auto

declare py_str_nat.simps [simp del]

definition append_new :: "'a \<Rightarrow> 'a list \<Rightarrow> 'a list" where
  "append_new x xs = (if x \<in> set xs then xs else xs @ [x])"

text \<open>\<open>d.setdefault(k, v)\<close> on a dict, and the value then found under \<open>k\<close>.\<close>

definition setdefault :: "'k \<Rightarrow> 'v \<Rightarrow> ('k \<times> 'v) list \<Rightarrow> ('k \<times> 'v) list" where
  "setdefault k v d = (case map_of d k of None \<Rightarrow> d @ [(k, v)] | Some _ \<Rightarrow> d)"

definition lookup_default :: "'k \<Rightarrow> 'v \<Rightarrow> ('k \<times> 'v) list \<Rightarrow> 'v" where
  "lookup_default k v d = (case map_of d k of None \<Rightarrow> v | Some w \<Rightarrow> w)"

text \<open>\<open>if e and e not in phrases: phrases.append(e)\<close>\<close>

definition add_example :: "pystr option \<Rightarrow> pystr list \<Rightarrow> pystr list" where
  "add_example user_example phrases =
     (case user_example of
        None \<Rightarrow> phrases
      | Some e \<Rightarrow> if e \<noteq> [] \<and> e \<notin> set phrases then phrases @ [e] else phrases)"

definition new_route ::
  "pystr \<Rightarrow> pystr \<Rightarrow> pystr \<Rightarrow> pystr option \<Rightarrow> (pystr \<times> pystr) list \<Rightarrow> route" where
  "new_route page intent_name target webhook_tag param_set =
     \<lparr>r_page = page, r_intent = intent_name, r_next_page = Some target,
      r_webhook_action = webhook_tag,
      r_parameters = (if param_set = [] then None else Some param_set)\<rparr>"

text \<open>
  The branch of a row without chips: one intent, and one route when the first target
  is present. The second component is \<open>has_valid_route\<close>. \<open>parse_next_pages\<close> returns
  as many targets as it is asked for, and it is asked for one at least, so index 0
  exists.
\<close>

definition no_chip_route ::
  "(pystr \<Rightarrow> pystr) \<Rightarrow> pystr \<Rightarrow> pystr option \<Rightarrow> pystr option \<Rightarrow> pystr option
     \<Rightarrow> (pystr \<times> pystr) list \<Rightarrow> pystr option list \<Rightarrow> nat \<Rightarrow> data \<Rightarrow> data \<times> bool" where
  "no_chip_route lower page intent_name_raw user_example webhook_tag param_set next_pages
       row_idx st =
     (let intent_name =
            (if truthy intent_name_raw then the intent_name_raw
             else U ''Intent_'' @ slugify lower page @ U ''_'' @ py_str_nat row_idx);
          phrases = lookup_default intent_name [] (d_intents st);
          phrases = add_example user_example phrases;
          st = st\<lparr>d_intents := AList.update intent_name phrases (d_intents st)\<rparr>
      in case next_pages ! 0 of
           Some target \<Rightarrow>
             (st\<lparr>d_routes := d_routes st
                    @ [new_route page intent_name target webhook_tag param_set],
                 pages_with_routes := insert page (pages_with_routes st)\<rparr>, True)
         | None \<Rightarrow> (st, False))"

text \<open>The loop over the chips of a row, \<open>i\<close> the index \<open>enumerate\<close> gives.\<close>

fun chip_loop ::
  "(pystr \<Rightarrow> pystr) \<Rightarrow> pystr \<Rightarrow> pystr option \<Rightarrow> pystr option \<Rightarrow> pystr option
     \<Rightarrow> (pystr \<times> pystr) list \<Rightarrow> pystr option list \<Rightarrow> nat \<Rightarrow> pystr list
     \<Rightarrow> data \<times> bool \<Rightarrow> data \<times> bool" where
  "chip_loop lower page intent_name_raw user_example webhook_tag param_set next_pages i []
       sv = sv"
| "chip_loop lower page intent_name_raw user_example webhook_tag param_set next_pages i
       (chip # rest) sv =
     (let st = fst sv;
          has_valid_route = snd sv;
          base_intent =
            (if truthy intent_name_raw then the intent_name_raw
             else U ''Intent_'' @ slugify lower page);
          chip_intent_name = base_intent @ U '' :: '' @ chip;
          phrases = lookup_default chip_intent_name [] (d_intents st);
          phrases = append_new chip phrases;
          phrases = add_example user_example phrases;
          st = st\<lparr>d_intents := AList.update chip_intent_name phrases (d_intents st)\<rparr>;
          next_page_value = (if i < length next_pages then next_pages ! i else next_pages ! 0)
      in case next_page_value of
           Some target \<Rightarrow>
             chip_loop lower page intent_name_raw user_example webhook_tag param_set
               next_pages (Suc i) rest
               (st\<lparr>d_routes := d_routes st
                     @ [new_route page chip_intent_name target webhook_tag param_set],
                   pages_with_routes := insert page (pages_with_routes st)\<rparr>, True)
         | None \<Rightarrow>
             chip_loop lower page intent_name_raw user_example webhook_tag param_set
               next_pages (Suc i) rest (st, has_valid_route))"

definition step_entry :: "bool \<Rightarrow> pystr \<Rightarrow> cell \<Rightarrow> (pystr \<times> pystr) list" where
  "step_entry has_column key c =
     (if has_column then (case sanitize c of None \<Rightarrow> [] | Some s \<Rightarrow> if s = [] then [] else [(key, s)])
      else [])"

text \<open>What a row does to the entry of its page in \<open>data["pages"]\<close>.\<close>

definition update_page ::
  "pystr option \<Rightarrow> pystr list \<Rightarrow> (pystr \<times> pystr) list \<Rightarrow> page_info \<Rightarrow> page_info" where
  "update_page bot_prompt chips step_info pg0 =
     (let pg = (case bot_prompt of
                  None \<Rightarrow> pg0
                | Some b \<Rightarrow> if b \<noteq> [] \<and> b \<notin> set (pg_prompts pg0)
                            then pg0\<lparr>pg_prompts := pg_prompts pg0 @ [b]\<rparr> else pg0);
          pg = pg\<lparr>pg_chips := fold append_new chips (pg_chips pg)\<rparr>
      in if step_info \<noteq> []
         then pg\<lparr>pg_metadata := fold (\<lambda>kv. AList.update (fst kv) (snd kv)) step_info (pg_metadata pg)\<rparr>
         else pg)"

definition start_names :: "pystr set" where
  "start_names = {U ''startpage'', U ''start_page'', U ''start''}"

text \<open>
  The body of the loop over the rows. Every operation of the body is defined on every
  row of cells, so the handler of the \<open>try\<close> statement is never entered and the body has
  no error result.
\<close>

definition process_row ::
  "(pystr \<Rightarrow> pystr) \<Rightarrow> bool \<Rightarrow> bool \<Rightarrow> nat \<times> row \<Rightarrow> data \<Rightarrow> data" where
  "process_row lower has_step has_next_step indexed st0 =
     (case sanitize (col_page_name (snd indexed)) of
        None \<Rightarrow> st0
      | Some page \<Rightarrow>
          if page = [] then st0
          else
            let row_idx = fst indexed;
                row = snd indexed;
                st = st0\<lparr>all_pages := append_new page (all_pages st0)\<rparr>;
                intent_name_raw = sanitize (col_intent_name row);
                trigger_raw = sanitize (col_trigger row);
                bot_prompt = sanitize (col_bot_prompt row);
                next_page_cell = sanitize (col_next_page row);
                param_set = parse_params (sanitize (col_parameter_set row));
                webhook_action_raw = sanitize (col_webhook_action row);
                chips = parse_chips (col_suggested_chips row);
                step_info = step_entry has_step (U ''step'') (col_step row)
                              @ step_entry has_next_step (U ''next_step'') (col_next_step row);
                user_example = snd (parse_trigger_and_example trigger_raw);
                webhook_tag = (if truthy webhook_action_raw
                               then generate_webhook_tag lower webhook_action_raw else None);
                st = (if truthy webhook_tag
                      then st\<lparr>d_webhooks := AList.update (the webhook_tag) (the webhook_action_raw)
                                               (d_webhooks st)\<rparr>
                      else st);
                pg = lookup_default page \<lparr>pg_prompts = [], pg_chips = [], pg_metadata = []\<rparr>
                       (d_pages st);
                st = st\<lparr>d_pages := AList.update page (update_page bot_prompt chips step_info pg)
                                       (d_pages st)\<rparr>;
                st = (if \<not> truthy (d_first_page st) \<and> lower page \<notin> start_names
                      then st\<lparr>d_first_page := Some page\<rparr> else st);
                parsed = parse_next_pages (cell_of next_page_cell)
                           (if chips \<noteq> [] then length chips else 1);
                next_pages = fst parsed;
                st = st\<lparr>d_warnings := d_warnings st @ snd parsed\<rparr>;
                sv = (if chips = []
                      then no_chip_route lower page intent_name_raw user_example webhook_tag
                             param_set next_pages row_idx st
                      else chip_loop lower page intent_name_raw user_example webhook_tag
                             param_set next_pages 0 chips (st, False))
            in if \<not> snd sv \<and> truthy bot_prompt
               then (fst sv)\<lparr>d_end_pages := append_new page (d_end_pages (fst sv))\<rparr>
               else fst sv)"

definition referenced_pages :: "route list \<Rightarrow> pystr set" where
  "referenced_pages rs =
     set (concat (map (\<lambda>r. case r_next_page r of
                              None \<Rightarrow> []
                            | Some t \<Rightarrow> if t = [] then [] else [t]) rs))"

text \<open>The pass after the rows, over \<open>all_pages\<close>.\<close>

definition infer_end_pages :: "data \<Rightarrow> data" where
  "infer_end_pages st =
     fold (\<lambda>page s.
             if page \<notin> referenced_pages (d_routes st) \<and> Some page \<noteq> d_first_page st
                \<and> page \<notin> pages_with_routes st
             then s\<lparr>d_end_pages := append_new page (d_end_pages s)\<rparr>
             else s)
       (all_pages st) st"

definition empty_data :: "bool \<Rightarrow> bool \<Rightarrow> data" where
  "empty_data has_step has_next_step =
     \<lparr>d_pages = [], d_intents = [], d_routes = [], d_end_pages = [], d_first_page = None,
      d_webhooks = [], d_has_step_info = (has_step \<or> has_next_step),
      pages_with_routes = {}, all_pages = [], d_warnings = []\<rparr>"

text \<open>
  \<open>convert_single_csv\<close> on the rows of the file, numbered from 0 as \<open>iterrows\<close> numbers
  them; \<open>has_step\<close> and \<open>has_next_step\<close> say whether the file has the two optional
  columns. The result is the dict the function writes as JSON (without the name of the
  source file, which no part of the graph depends on).
\<close>

definition convert_single_csv :: "(pystr \<Rightarrow> pystr) \<Rightarrow> bool \<Rightarrow> bool \<Rightarrow> row list \<Rightarrow> data" where
  "convert_single_csv lower has_step has_next_step rows =
     infer_end_pages
       (fold (process_row lower has_step has_next_step) (enumerate 0 rows)
          (empty_data has_step has_next_step))"

section \<open>Invariants of the compiler loop\<close>

text \<open>
  What the route-emitting part of a row does to the state, from \<open>sv\<close> to \<open>sv'\<close>: it
  leaves the pages, the end pages and the first page alone and appends routes that
  leave \<open>page\<close> for a target among \<open>nps\<close>.
\<close>

definition emitted :: "pystr \<Rightarrow> pystr option list \<Rightarrow> data \<times> bool \<Rightarrow> data \<times> bool \<Rightarrow> bool" where
  "emitted page nps sv sv' \<longleftrightarrow>
     d_pages (fst sv') = d_pages (fst sv) \<and> all_pages (fst sv') = all_pages (fst sv)
     \<and> d_end_pages (fst sv') = d_end_pages (fst sv)
     \<and> d_first_page (fst sv') = d_first_page (fst sv)
     \<and> (\<exists>new. d_routes (fst sv') = d_routes (fst sv) @ new
           \<and> (\<forall>r \<in> set new. r_page r = page \<and> r_next_page r \<noteq> None \<and> r_next_page r \<in> set nps)
           \<and> pages_with_routes (fst sv') = pages_with_routes (fst sv) \<union> r_page ` set new
           \<and> snd sv' = (snd sv \<or> new \<noteq> []))"

text \<open>What holds of \<open>data\<close> and the two sets after every row.\<close>

definition compile_inv :: "data \<Rightarrow> bool" where
  "compile_inv st \<longleftrightarrow>
     (\<forall>r \<in> set (d_routes st). r_page r \<in> fst ` set (d_pages st) \<and> r_next_page r \<noteq> None)
     \<and> pages_with_routes st = r_page ` set (d_routes st)
     \<and> set (all_pages st) = fst ` set (d_pages st)
     \<and> (\<forall>p pg. map_of (d_pages st) p = Some pg \<and> pg_prompts pg \<noteq> [] \<and> p \<notin> pages_with_routes st
           \<longrightarrow> p \<in> set (d_end_pages st))"


section \<open>Example tables\<close>

text \<open>A row with a page name, a bot prompt and a next page; the other required
  columns are empty (NaN), and the table has no chips column and no step columns.\<close>

definition example_row :: "cell \<Rightarrow> cell \<Rightarrow> cell \<Rightarrow> row" where
  "example_row name prompt target =
     \<lparr>col_page_name = name, col_intent_name = NaN, col_trigger = NaN, col_bot_prompt = prompt,
      col_next_page = target, col_parameter_set = NaN, col_webhook_action = NaN,
      col_suggested_chips = PyNone, col_step = PyNone, col_next_step = PyNone\<rparr>"

definition table_dangling :: "row list" where
  "table_dangling = [example_row (Str (U ''A'')) (Str (U ''hi'')) (Str (U ''B''))]"

definition table_two_sources :: "row list" where
  "table_two_sources =
     [example_row (Str (U ''A'')) (Str (U ''hi'')) (Str (U ''B'')),
      example_row (Str (U ''C'')) (Str (U ''yo'')) (Str (U ''B''))]"

definition table_silent_target :: "row list" where
  "table_silent_target =
     [example_row (Str (U ''A'')) (Str (U ''hi'')) (Str (U ''B'')),
      example_row (Str (U ''B'')) NaN NaN]"


definition table_end_states :: "row list" where
  "table_end_states =
     [example_row (Str (U ''A'')) (Str (U ''hi'')) (Str (U ''B'')),
      example_row (Str (U ''B'')) (Str (U ''bye'')) NaN,
      example_row (Str (U ''D'')) NaN NaN]"


text \<open>The routes a row appends carry the tag \<open>tag\<close>, and the table of webhooks is
  left alone while they are appended.\<close>

definition tagged :: "pystr option \<Rightarrow> data \<times> bool \<Rightarrow> data \<times> bool \<Rightarrow> bool" where
  "tagged tag sv sv' \<longleftrightarrow>
     d_webhooks (fst sv') = d_webhooks (fst sv)
     \<and> (\<exists>new. d_routes (fst sv') = d_routes (fst sv) @ new
           \<and> (\<forall>r \<in> set new. r_webhook_action r = tag))"

text \<open>Two underscores (code point 95) side by side somewhere in a string.\<close>

fun adjacent_underscores :: "pystr \<Rightarrow> bool" where
  "adjacent_underscores [] = False"
| "adjacent_underscores [c] = False"
| "adjacent_underscores (c # d # cs) = ((c = 95 \<and> d = 95) \<or> adjacent_underscores (d # cs))"

section \<open>Synchronization engine: requests with retry\<close>

text \<open>
  What one call of \<open>requests.request\<close> can do: raise a \<open>RequestException\<close> (a failure
  of the transport) or answer with a response, of which \<open>_api_request\<close> reads the
  status code and the \<open>Retry-After\<close> header. The header is absent, or a text \<open>int\<close>
  turns into a number, or any other text.
\<close>

datatype retry_header = NoRetryAfter | RetryAfterSeconds int | RetryAfterOther

record response =
  status_code :: nat
  retry_after :: retry_header

datatype outcome = Fails | Answers response

text \<open>
  The exceptions that leave \<open>_api_request\<close>: \<open>HTTPError\<close>, which \<open>raise_for_status\<close>
  raises for a status from 400 to 599, is a \<open>RequestException\<close> and is caught by the
  handler; \<open>ValueError\<close> (from \<open>int\<close> on a header that is no number, or from
  \<open>time.sleep\<close> on a negative one) is not.
\<close>

datatype exn = RequestException | HTTPError nat | ValueError | UnboundLocalError

datatype api_result = Returned response | Raised exn

text \<open>What a call does besides returning: the requests it sends, numbered by attempt,
  the seconds it sleeps, the refreshes of the credential, the logged bad request.\<close>

datatype event = Request nat | Sleep int | RefreshAuth | LogBadRequest

definition max_retries :: nat where
  "max_retries = 3"

text \<open>
  The loop \<open>for attempt in range(max_retries)\<close> from \<open>attempt\<close> on; \<open>server n\<close> is what
  the \<open>n\<close>-th request of the call meets, \<open>response\<close> the variable of that name (unbound
  before the first answer), \<open>trace\<close> the events so far. When the loop runs out, the
  statement after it returns \<open>response\<close>. The refresh of the credential is taken to
  succeed.
\<close>

function api_request_from ::
  "(nat \<Rightarrow> outcome) \<Rightarrow> nat \<Rightarrow> response option \<Rightarrow> event list \<Rightarrow> api_result \<times> event list" where
  "api_request_from server attempt response trace =
     (if max_retries \<le> attempt
      then (case response of
              None \<Rightarrow> (Raised UnboundLocalError, trace)
            | Some r \<Rightarrow> (Returned r, trace))
      else
        let trace = (if 0 < attempt then trace @ [Sleep (2 ^ attempt)] else trace);
            trace = trace @ [Request attempt]
        in case server attempt of
             Fails \<Rightarrow>
               if attempt = max_retries - 1 then (Raised RequestException, trace)
               else api_request_from server (attempt + 1) response trace
           | Answers r \<Rightarrow>
               if status_code r = 401 \<and> attempt < max_retries - 1
                 then api_request_from server (attempt + 1) (Some r) (trace @ [RefreshAuth])
               else if status_code r = 429 then
                 (case retry_after r of
                    NoRetryAfter \<Rightarrow>
                      api_request_from server (attempt + 1) (Some r) (trace @ [Sleep 5])
                  | RetryAfterSeconds n \<Rightarrow>
                      if n < 0 then (Raised ValueError, trace)
                      else api_request_from server (attempt + 1) (Some r) (trace @ [Sleep n])
                  | RetryAfterOther \<Rightarrow> (Raised ValueError, trace))
               else
                 let trace = (if status_code r = 400 then trace @ [LogBadRequest] else trace)
                 in if 400 \<le> status_code r \<and> status_code r < 600
                    then (if attempt = max_retries - 1
                          then (Raised (HTTPError (status_code r)), trace)
                          else api_request_from server (attempt + 1) (Some r) trace)
                    else (Returned r, trace))"
  by pat_completeness auto
termination
  by (relation "measure (\<lambda>(server, attempt, response, trace). max_retries - attempt)")
     (auto simp: max_retries_def)

declare api_request_from.simps [simp del]

definition api_request :: "(nat \<Rightarrow> outcome) \<Rightarrow> api_result \<times> event list" where
  "api_request server = api_request_from server 0 None []"

definition attempts :: "event list \<Rightarrow> nat" where
  "attempts trace = length (filter (\<lambda>e. case e of Request _ \<Rightarrow> True | _ \<Rightarrow> False) trace)"

definition rate_limited :: response where
  "rate_limited = \<lparr>status_code = 429, retry_after = NoRetryAfter\<rparr>"

section \<open>Synchronization engine: the remote agent\<close>

text \<open>
  Modelled from the spec: the remote platform is no code of the repository; its REST
  collections are modelled from the section on the remote API shape. A resource has
  an opaque identifier (its \<open>name\<close>, a number here) and a display name; a list
  operation returns the items of a collection, a POST creates an item with a fresh
  identifier, a PATCH replaces the fields its update mask names and fails for an
  identifier that does not exist.
\<close>

datatype message = TextMessage "pystr list" | ChipsMessage "pystr list"

record trigger_fulfillment =
  tf_webhook :: "nat option"
  tf_tag :: "pystr option"
  tf_set_parameters :: "(pystr \<times> pystr) list option"

record route_payload =
  rp_intent :: "nat option"
  rp_target_page :: nat
  rp_trigger :: "trigger_fulfillment option"

record flow_res =
  f_id :: nat
  f_display :: pystr
  f_start :: "nat option"

record webhook_res =
  w_id :: nat
  w_display :: pystr
  w_uri :: pystr
  w_headers :: "(pystr \<times> pystr) list option"

record intent_res =
  i_id :: nat
  i_display :: pystr
  i_phrases :: "pystr list"

record page_res =
  p_id :: nat
  p_flow :: nat
  p_display :: pystr
  p_entry :: "message list"
  p_routes :: "route_payload list"

datatype request =
    GetFlows | PostFlow pystr | PatchFlowRoutes nat nat
  | GetWebhooks | PostWebhook pystr pystr "(pystr \<times> pystr) list option"
  | GetIntents | PostIntent pystr "pystr list" | PatchIntent nat "pystr list"
  | GetPages nat | PostPage nat pystr "message list" | PatchPageEntry nat "message list"
  | PatchPageRoutes nat "route_payload list"

text \<open>
  The state of a synchronization: the collections of the remote agent, the requests
  sent so far, what the platform does to the attempts of every call, and the cache of
  the uploader. \<open>rm_server s k n\<close> is what the \<open>n\<close>-th attempt of the \<open>k\<close>-th call of
  \<open>_api_request\<close> meets.
\<close>

record sync_state =
  rm_flows :: "flow_res list"
  rm_webhooks :: "webhook_res list"
  rm_intents :: "intent_res list"
  rm_pages :: "page_res list"
  rm_next_id :: nat
  rm_log :: "request list"
  rm_server :: "nat \<Rightarrow> nat \<Rightarrow> outcome"
  cache_flows :: "(pystr \<times> nat) list"
  cache_webhooks :: "(pystr \<times> nat) list"

datatype sync_error = ApiError | RuntimeError | KeyError

type_synonym 'a sync = "sync_state \<Rightarrow> (sync_error + 'a) \<times> sync_state"

definition and_then :: "'a sync \<Rightarrow> ('a \<Rightarrow> 'b sync) \<Rightarrow> 'b sync" where
  "and_then m f s = (case m s of (Inl e, s') \<Rightarrow> (Inl e, s') | (Inr x, s') \<Rightarrow> f x s')"

definition done_with :: "'a \<Rightarrow> 'a sync" where
  "done_with x s = (Inr x, s)"

text \<open>
  How a call of \<open>_api_request\<close> ends for its caller: with an exception, with the 429
  response that the retry loop hands back when its attempts have run out, or with the
  answer of the platform. The retry loop returns a response either from inside the
  loop, when the status is below 400 or above 599, or after the loop, and then the
  status is 429.
\<close>

datatype call_end = CallRaises | CallLimited | CallAnswered

definition call_ends :: "(nat \<Rightarrow> outcome) \<Rightarrow> call_end" where
  "call_ends server =
     (case fst (api_request server) of
        Raised e \<Rightarrow> CallRaises
      | Returned r \<Rightarrow> if status_code r = 429 then CallLimited else CallAnswered)"

text \<open>
  One call of \<open>_api_request\<close> by a method of the uploader: the request is logged and
  the retry loop runs against the platform. When the loop raises, the request has had
  no effect and the exception goes to the caller. When the loop hands back a 429
  response, the request has had no effect and the caller goes on with that response:
  \<open>limited\<close>. Otherwise the request has the effect \<open>answer\<close>.
\<close>

definition api_call :: "request \<Rightarrow> 'a sync \<Rightarrow> 'a sync \<Rightarrow> 'a sync" where
  "api_call req limited answer s =
     (let s' = s\<lparr>rm_log := rm_log s @ [req]\<rparr>
      in case call_ends (rm_server s (length (rm_log s))) of
           CallRaises \<Rightarrow> (Inl ApiError, s')
         | CallLimited \<Rightarrow> limited s'
         | CallAnswered \<Rightarrow> answer s')"

text \<open>
  What the callers read from a 429 response. The platform is no code of the
  repository: the body of its 429 response is taken to be what its REST interface
  sends with an error status, a JSON object with the one key \<open>error\<close>. So
  \<open>resp.json().get(key, [])\<close> is the empty list and \<open>list_by_name\<close> returns the empty
  dict, \<open>resp.json()["name"]\<close> raises \<open>KeyError\<close>, and a caller that does not read the
  response of its PATCH goes on as after an answer.
\<close>

definition no_items :: "(pystr \<times> nat) list sync" where
  "no_items s = (Inr [], s)"

definition no_name :: "nat sync" where
  "no_name s = (Inl KeyError, s)"


text \<open>\<open>list_by_name\<close>: the dict from display name to item, a later item with the same
  display name replacing an earlier one; the model keeps the identifier of the item.\<close>

definition index_by_name :: "('r \<Rightarrow> pystr) \<Rightarrow> ('r \<Rightarrow> nat) \<Rightarrow> 'r list \<Rightarrow> (pystr \<times> nat) list" where
  "index_by_name display ident items =
     fold (\<lambda>item d. AList.update (display item) (ident item) d) items []"

definition list_flows :: "(pystr \<times> nat) list sync" where
  "list_flows =
     api_call GetFlows no_items (\<lambda>s. (Inr (index_by_name f_display f_id (rm_flows s)), s))"

definition list_webhooks :: "(pystr \<times> nat) list sync" where
  "list_webhooks =
     api_call GetWebhooks no_items (\<lambda>s. (Inr (index_by_name w_display w_id (rm_webhooks s)), s))"

definition list_intents :: "(pystr \<times> nat) list sync" where
  "list_intents =
     api_call GetIntents no_items (\<lambda>s. (Inr (index_by_name i_display i_id (rm_intents s)), s))"

definition list_pages :: "nat \<Rightarrow> (pystr \<times> nat) list sync" where
  "list_pages flow =
     api_call (GetPages flow) no_items
       (\<lambda>s. (Inr (index_by_name p_display p_id (filter (\<lambda>p. p_flow p = flow) (rm_pages s))), s))"

definition post_flow :: "pystr \<Rightarrow> nat sync" where
  "post_flow display_name =
     api_call (PostFlow display_name) no_name
       (\<lambda>s. (Inr (rm_next_id s),
              s\<lparr>rm_flows := rm_flows s
                     @ [\<lparr>f_id = rm_next_id s, f_display = display_name, f_start = None\<rparr>],
                rm_next_id := Suc (rm_next_id s)\<rparr>))"

definition post_webhook :: "pystr \<Rightarrow> pystr \<Rightarrow> (pystr \<times> pystr) list option \<Rightarrow> nat sync" where
  "post_webhook display_name uri headers_map =
     api_call (PostWebhook display_name uri headers_map) no_name
       (\<lambda>s. (Inr (rm_next_id s),
              s\<lparr>rm_webhooks := rm_webhooks s
                     @ [\<lparr>w_id = rm_next_id s, w_display = display_name, w_uri = uri,
                         w_headers = headers_map\<rparr>],
                rm_next_id := Suc (rm_next_id s)\<rparr>))"

definition post_intent :: "pystr \<Rightarrow> pystr list \<Rightarrow> nat sync" where
  "post_intent display_name phrases =
     api_call (PostIntent display_name phrases) no_name
       (\<lambda>s. (Inr (rm_next_id s),
              s\<lparr>rm_intents := rm_intents s
                     @ [\<lparr>i_id = rm_next_id s, i_display = display_name, i_phrases = phrases\<rparr>],
                rm_next_id := Suc (rm_next_id s)\<rparr>))"

definition post_page :: "nat \<Rightarrow> pystr \<Rightarrow> message list \<Rightarrow> nat sync" where
  "post_page flow display_name entry =
     api_call (PostPage flow display_name entry) no_name
       (\<lambda>s. (Inr (rm_next_id s),
              s\<lparr>rm_pages := rm_pages s
                     @ [\<lparr>p_id = rm_next_id s, p_flow = flow, p_display = display_name,
                         p_entry = entry, p_routes = []\<rparr>],
                rm_next_id := Suc (rm_next_id s)\<rparr>))"

definition patch_intent :: "nat \<Rightarrow> pystr list \<Rightarrow> unit sync" where
  "patch_intent ident phrases =
     api_call (PatchIntent ident phrases) (done_with ())
       (\<lambda>s. if ident \<in> i_id ` set (rm_intents s)
             then (Inr (), s\<lparr>rm_intents :=
                      map (\<lambda>i. if i_id i = ident then i\<lparr>i_phrases := phrases\<rparr> else i)
                        (rm_intents s)\<rparr>)
             else (Inl ApiError, s))"

definition patch_page_entry :: "nat \<Rightarrow> message list \<Rightarrow> unit sync" where
  "patch_page_entry ident entry =
     api_call (PatchPageEntry ident entry) (done_with ())
       (\<lambda>s. if ident \<in> p_id ` set (rm_pages s)
             then (Inr (), s\<lparr>rm_pages :=
                      map (\<lambda>p. if p_id p = ident then p\<lparr>p_entry := entry\<rparr> else p)
                        (rm_pages s)\<rparr>)
             else (Inl ApiError, s))"

definition patch_page_routes :: "nat \<Rightarrow> route_payload list \<Rightarrow> unit sync" where
  "patch_page_routes ident rs =
     api_call (PatchPageRoutes ident rs) (done_with ())
       (\<lambda>s. if ident \<in> p_id ` set (rm_pages s)
             then (Inr (), s\<lparr>rm_pages :=
                      map (\<lambda>p. if p_id p = ident then p\<lparr>p_routes := rs\<rparr> else p)
                        (rm_pages s)\<rparr>)
             else (Inl ApiError, s))"

definition patch_flow_routes :: "nat \<Rightarrow> nat \<Rightarrow> unit sync" where
  "patch_flow_routes ident target =
     api_call (PatchFlowRoutes ident target) (done_with ())
       (\<lambda>s. if ident \<in> f_id ` set (rm_flows s)
             then (Inr (), s\<lparr>rm_flows :=
                      map (\<lambda>f. if f_id f = ident then f\<lparr>f_start := Some target\<rparr> else f)
                        (rm_flows s)\<rparr>)
             else (Inl ApiError, s))"

section \<open>Synchronization engine: upserts and upload\<close>

text \<open>An optional dict in a condition: \<open>None\<close> and the empty dict are false.\<close>

definition falsy_dict :: "('k \<times> 'v) list option \<Rightarrow> bool" where
  "falsy_dict d = (case d of None \<Rightarrow> True | Some kvs \<Rightarrow> kvs = [])"

definition upsert_flow :: "pystr \<Rightarrow> nat sync" where
  "upsert_flow display_name s =
     (case map_of (cache_flows s) display_name of
        Some cached \<Rightarrow> (Inr cached, s)
      | None \<Rightarrow>
          and_then list_flows
            (\<lambda>flows.
               and_then
                 (case map_of flows display_name of
                    Some existing \<Rightarrow> done_with existing
                  | None \<Rightarrow> post_flow display_name)
                 (\<lambda>resource_name s'.
                    (Inr resource_name,
                     s'\<lparr>cache_flows :=
                          AList.update display_name resource_name (cache_flows s')\<rparr>)))
            s)"

definition upsert_webhook :: "pystr \<Rightarrow> pystr \<Rightarrow> (pystr \<times> pystr) list option \<Rightarrow> nat sync" where
  "upsert_webhook display_name uri headers_map s =
     (let cache_key = display_name @ U ''::'' @ uri in
      case map_of (cache_webhooks s) cache_key of
        Some cached \<Rightarrow> (Inr cached, s)
      | None \<Rightarrow>
          and_then list_webhooks
            (\<lambda>hooks.
               and_then
                 (case map_of hooks display_name of
                    Some existing \<Rightarrow> done_with existing
                  | None \<Rightarrow>
                      post_webhook display_name uri
                        (if falsy_dict headers_map then None else headers_map))
                 (\<lambda>name s'.
                    (Inr name,
                     s'\<lparr>cache_webhooks := AList.update cache_key name (cache_webhooks s')\<rparr>)))
            s)"

definition upsert_intent ::
  "pystr \<Rightarrow> pystr list \<Rightarrow> (pystr \<times> nat) list option \<Rightarrow> nat sync" where
  "upsert_intent display_name training_phrases intents_index0 =
     and_then
       (if falsy_dict intents_index0 then list_intents else done_with (the intents_index0))
       (\<lambda>intents_index.
          let phrases = filter (\<lambda>tp. tp \<noteq> []) training_phrases in
          case map_of intents_index display_name of
            Some intent_name \<Rightarrow>
              and_then (patch_intent intent_name phrases) (\<lambda>_. done_with intent_name)
          | None \<Rightarrow> post_intent display_name phrases)"

definition entry_messages :: "pystr list \<Rightarrow> pystr list \<Rightarrow> message list" where
  "entry_messages prompts chips =
     (if prompts \<noteq> [] then [TextMessage prompts] else [])
     @ (if chips \<noteq> [] then [ChipsMessage chips] else [])"

definition upsert_page ::
  "nat \<Rightarrow> pystr \<Rightarrow> pystr list \<Rightarrow> pystr list \<Rightarrow> (pystr \<times> nat) list option \<Rightarrow> bool
     \<Rightarrow> nat sync" where
  "upsert_page flow display_name prompts chips pages_index0 is_end_state =
     and_then
       (if falsy_dict pages_index0 then list_pages flow else done_with (the pages_index0))
       (\<lambda>pages_index.
          let messages = entry_messages prompts chips in
          case map_of pages_index display_name of
            Some page_name \<Rightarrow>
              and_then (patch_page_entry page_name messages) (\<lambda>_. done_with page_name)
          | None \<Rightarrow> post_page flow display_name messages)"

definition patch_flow_start_route :: "nat \<Rightarrow> pystr \<Rightarrow> unit sync" where
  "patch_flow_start_route flow first_page_name =
     and_then (list_pages flow)
       (\<lambda>page_map.
          case map_of page_map first_page_name of
            None \<Rightarrow> (\<lambda>s. (Inl RuntimeError, s))
          | Some target \<Rightarrow> patch_flow_routes flow target)"

text \<open>The loop over \<open>data["pages"]\<close>, with the dicts \<open>pages_index\<close> and
  \<open>page_name_to_id\<close>; its result is \<open>page_name_to_id\<close>.\<close>

fun upsert_pages ::
  "nat \<Rightarrow> pystr list \<Rightarrow> (pystr \<times> page_info) list \<Rightarrow> (pystr \<times> nat) list
     \<Rightarrow> (pystr \<times> nat) list \<Rightarrow> (pystr \<times> nat) list sync" where
  "upsert_pages flow end_pages [] pages_index page_name_to_id = done_with page_name_to_id"
| "upsert_pages flow end_pages (entry # rest) pages_index page_name_to_id =
     and_then
       (upsert_page flow (fst entry) (pg_prompts (snd entry)) (pg_chips (snd entry))
          (Some pages_index) (fst entry \<in> set end_pages))
       (\<lambda>page_resource.
          upsert_pages flow end_pages rest
            (AList.update (fst entry) page_resource pages_index)
            (AList.update (fst entry) page_resource page_name_to_id))"

text \<open>The loop over \<open>data["intents"]\<close>; its result is \<open>intent_name_to_id\<close>.\<close>

fun upsert_intents ::
  "(pystr \<times> pystr list) list \<Rightarrow> (pystr \<times> nat) list \<Rightarrow> (pystr \<times> nat) list
     \<Rightarrow> (pystr \<times> nat) list sync" where
  "upsert_intents [] intents_index intent_name_to_id = done_with intent_name_to_id"
| "upsert_intents (entry # rest) intents_index intent_name_to_id =
     and_then (upsert_intent (fst entry) (snd entry) (Some intents_index))
       (\<lambda>intent_resource.
          upsert_intents rest
            (AList.update (fst entry) intent_resource intents_index)
            (AList.update (fst entry) intent_resource intent_name_to_id))"

text \<open>\<open>routes_by_page\<close>: the routes with a next page, grouped by owning page.\<close>

definition routes_by_page :: "route list \<Rightarrow> (pystr \<times> route list) list" where
  "routes_by_page rs =
     fold (\<lambda>r d. AList.update (r_page r) (lookup_default (r_page r) [] d @ [r]) d)
       (filter (\<lambda>r. truthy (r_next_page r)) rs) []"

text \<open>The payload of one route; \<open>None\<close> when the route is skipped.\<close>

definition compose_route ::
  "(pystr \<times> nat) list \<Rightarrow> (pystr \<times> nat) list \<Rightarrow> nat option \<Rightarrow> route \<Rightarrow> route_payload option" where
  "compose_route intent_name_to_id page_name_to_id dispatcher_name r =
     (if \<not> truthy (r_next_page r) then None
      else
        case map_of page_name_to_id (the (r_next_page r)) of
          None \<Rightarrow> None
        | Some target_page_ref \<Rightarrow>
            let has_webhook = (truthy (r_webhook_action r) \<and> dispatcher_name \<noteq> None);
                params = (case r_parameters r of None \<Rightarrow> [] | Some ps \<Rightarrow> ps);
                has_params = (\<exists>kv \<in> set params. snd kv \<noteq> []);
                param_actions = filter (\<lambda>kv. fst kv \<noteq> [] \<and> snd kv \<noteq> []) params;
                trig = \<lparr>tf_webhook = (if has_webhook then dispatcher_name else None),
                        tf_tag = (if has_webhook then r_webhook_action r else None),
                        tf_set_parameters =
                          (if has_params \<and> param_actions \<noteq> [] then Some param_actions else None)\<rparr>
            in Some \<lparr>rp_intent = map_of intent_name_to_id (r_intent r),
                     rp_target_page = target_page_ref,
                     rp_trigger =
                       (if has_webhook \<or> (has_params \<and> param_actions \<noteq> []) then Some trig
                        else None)\<rparr>)"

text \<open>The loop over \<open>routes_by_page\<close>: one PATCH for every page with a route to send.\<close>

fun apply_routes ::
  "(pystr \<times> nat) list \<Rightarrow> (pystr \<times> nat) list \<Rightarrow> nat option \<Rightarrow> (pystr \<times> route list) list
     \<Rightarrow> unit sync" where
  "apply_routes intent_name_to_id page_name_to_id dispatcher_name [] = done_with ()"
| "apply_routes intent_name_to_id page_name_to_id dispatcher_name (entry # rest) =
     (case map_of page_name_to_id (fst entry) of
        None \<Rightarrow> apply_routes intent_name_to_id page_name_to_id dispatcher_name rest
      | Some page_resource \<Rightarrow>
          let transition_routes =
                List.map_filter (compose_route intent_name_to_id page_name_to_id dispatcher_name)
                  (snd entry)
          in if transition_routes \<noteq> []
             then and_then (patch_page_routes page_resource transition_routes)
                    (\<lambda>_. apply_routes intent_name_to_id page_name_to_id dispatcher_name rest)
             else apply_routes intent_name_to_id page_name_to_id dispatcher_name rest)"

record config =
  dispatcher_url :: pystr
  dispatcher_header :: "pystr option"

definition header_map :: "pystr option \<Rightarrow> (pystr \<times> pystr) list option" where
  "header_map header =
     (case header of
        None \<Rightarrow> None
      | Some h \<Rightarrow>
          if h \<noteq> [] \<and> 61 \<in> set h
          then Some [(py_strip (takeWhile (\<lambda>c. c \<noteq> 61) h),
                      py_strip (tl (dropWhile (\<lambda>c. c \<noteq> 61) h)))]
          else None)"

text \<open>The statements of \<open>upload_single_flow\<close> inside its \<open>try\<close>, after the flow name is
  fixed and the JSON document is read into \<open>data\<close>.\<close>

definition upload_steps :: "config \<Rightarrow> data \<Rightarrow> pystr \<Rightarrow> unit sync" where
  "upload_steps cfg graph flow_name =
     and_then (upsert_flow flow_name)
       (\<lambda>flow.
          and_then
            (if (\<exists>r \<in> set (d_routes graph). truthy (r_webhook_action r)) \<or> d_webhooks graph \<noteq> []
             then and_then
                    (upsert_webhook (U ''Dispatcher'') (dispatcher_url cfg)
                       (header_map (dispatcher_header cfg)))
                    (\<lambda>name. done_with (Some name))
             else done_with None)
            (\<lambda>dispatcher_name.
               and_then list_intents
                 (\<lambda>intents_index.
                    and_then (list_pages flow)
                      (\<lambda>pages_index.
                         and_then
                           (upsert_pages flow (d_end_pages graph) (d_pages graph) pages_index [])
                           (\<lambda>page_name_to_id.
                              and_then (upsert_intents (d_intents graph) intents_index [])
                                (\<lambda>intent_name_to_id.
                                   and_then
                                     (apply_routes intent_name_to_id page_name_to_id
                                        dispatcher_name (routes_by_page (d_routes graph)))
                                     (\<lambda>_. if truthy (d_first_page graph)
                                           then patch_flow_start_route flow
                                                  (the (d_first_page graph))
                                           else done_with ())))))))"

datatype upload_result = Uploaded pystr | Failed sync_error

text \<open>
  \<open>upload_single_flow\<close>: \<open>flow_name\<close> is the argument of that name, \<open>derived_name\<close> the
  name the function derives from the path of the file when no name is given. Every
  exception of the body is caught and reported as a failure.
\<close>

definition upload_single_flow ::
  "config \<Rightarrow> data \<Rightarrow> pystr option \<Rightarrow> pystr \<Rightarrow> sync_state \<Rightarrow> upload_result \<times> sync_state" where
  "upload_single_flow cfg graph flow_name derived_name s =
     (let name = (if truthy flow_name then the flow_name else derived_name)
      in case upload_steps cfg graph name s of
           (Inl e, s') \<Rightarrow> (Failed e, s')
         | (Inr _, s') \<Rightarrow> (Uploaded name, s'))"

text \<open>
  A platform that answers every request with status 200, except that it answers every
  attempt of the calls numbered in \<open>ks\<close> with status 429.
\<close>

definition ok_response :: response where
  "ok_response = \<lparr>status_code = 200, retry_after = NoRetryAfter\<rparr>"

definition limiting :: "nat list \<Rightarrow> nat \<Rightarrow> nat \<Rightarrow> outcome" where
  "limiting ks k attempt = (if k \<in> set ks then Answers rate_limited else Answers ok_response)"

text \<open>An agent with no resource, and an uploader that has just been constructed.\<close>

definition fresh_agent :: "(nat \<Rightarrow> nat \<Rightarrow> outcome) \<Rightarrow> sync_state" where
  "fresh_agent server =
     \<lparr>rm_flows = [], rm_webhooks = [], rm_intents = [], rm_pages = [], rm_next_id = 0,
      rm_log = [], rm_server = server, cache_flows = [], cache_webhooks = []\<rparr>"

text \<open>The same agent met by a new uploader: the constructor starts with empty caches.\<close>

definition new_uploader :: "sync_state \<Rightarrow> sync_state" where
  "new_uploader s = s\<lparr>cache_flows := [], cache_webhooks := []\<rparr>"

text \<open>The display names on the remote agent, by category; pages with their flow.\<close>

definition remote_names ::
  "sync_state \<Rightarrow> pystr list \<times> pystr list \<times> pystr list \<times> (nat \<times> pystr) list" where
  "remote_names s =
     (map f_display (rm_flows s), map w_display (rm_webhooks s), map i_display (rm_intents s),
      map (\<lambda>p. (p_flow p, p_display p)) (rm_pages s))"

text \<open>An agent that already has a webhook with the display name \<open>Dispatcher\<close>.\<close>

definition agent_with_dispatcher :: "(nat \<Rightarrow> nat \<Rightarrow> outcome) \<Rightarrow> sync_state" where
  "agent_with_dispatcher server =
     (fresh_agent server)
       \<lparr>rm_webhooks := [\<lparr>w_id = 7, w_display = U ''Dispatcher'', w_uri = U ''https://old'',
                          w_headers = None\<rparr>],
        rm_next_id := 8\<rparr>"

section \<open>Relations between the states of a synchronization\<close>

definition webhook_names :: "sync_state \<Rightarrow> pystr set" where
  "webhook_names s = w_display ` set (rm_webhooks s)"

definition intent_names :: "sync_state \<Rightarrow> pystr set" where
  "intent_names s = i_display ` set (rm_intents s)"

definition page_names :: "sync_state \<Rightarrow> (nat \<times> pystr) set" where
  "page_names s = (\<lambda>p. (p_flow p, p_display p)) ` set (rm_pages s)"

text \<open>The flows of the agent by display name and identifier, in their order.\<close>

definition flow_ids :: "sync_state \<Rightarrow> (pystr \<times> nat) list" where
  "flow_ids s = map (\<lambda>f. (f_display f, f_id f)) (rm_flows s)"

text \<open>From \<open>s\<close> to \<open>s'\<close> no resource was created or renamed; the platform is the same
  and no request was taken back.\<close>

definition quiet :: "sync_state \<Rightarrow> sync_state \<Rightarrow> bool" where
  "quiet s s' \<longleftrightarrow>
     remote_names s' = remote_names s \<and> flow_ids s' = flow_ids s
     \<and> rm_server s' = rm_server s \<and> length (rm_log s) \<le> length (rm_log s')"

text \<open>From \<open>s\<close> to \<open>s'\<close> the webhooks, intents and pages on the remote agent keep their
  display names and the flows are the same.\<close>

definition grows :: "sync_state \<Rightarrow> sync_state \<Rightarrow> bool" where
  "grows s s' \<longleftrightarrow>
     webhook_names s \<subseteq> webhook_names s' \<and> intent_names s \<subseteq> intent_names s'
     \<and> page_names s \<subseteq> page_names s' \<and> flow_ids s' = flow_ids s"

text \<open>A step of the synchronization that relates every state to the state after it.\<close>

definition step_keeps :: "(sync_state \<Rightarrow> sync_state \<Rightarrow> bool) \<Rightarrow> 'a sync \<Rightarrow> bool" where
  "step_keeps R m \<longleftrightarrow> (\<forall>s. R s (snd (m s)))"

text \<open>From the state \<open>s\<close> on, no call of \<open>_api_request\<close> hands back a 429 response.\<close>

definition unlimited :: "sync_state \<Rightarrow> bool" where
  "unlimited s \<longleftrightarrow> (\<forall>k \<ge> length (rm_log s). call_ends (rm_server s k) \<noteq> CallLimited)"

text \<open>A small graph with a webhook action, and the configuration of an uploader.\<close>

definition example_graph :: data where
  "example_graph =
     (empty_data False False)
       \<lparr>d_pages := [(U ''A'', \<lparr>pg_prompts = [U ''hi''], pg_chips = [U ''Yes''], pg_metadata = []\<rparr>),
                    (U ''B'', \<lparr>pg_prompts = [U ''bye''], pg_chips = [], pg_metadata = []\<rparr>)],
        d_intents := [(U ''Go :: Yes'', [U ''Yes''])],
        d_routes := [\<lparr>r_page = U ''A'', r_intent = U ''Go :: Yes'', r_next_page = Some (U ''B''),
                       r_webhook_action = Some (U ''send_mail''),
                       r_parameters = Some [(U ''k'', U ''v'')]\<rparr>],
        d_end_pages := [U ''B''],
        d_first_page := Some (U ''A''),
        d_webhooks := [(U ''send_mail'', U ''Send the mail'')]\<rparr>"

definition example_config :: config where
  "example_config = \<lparr>dispatcher_url = U ''https://d'', dispatcher_header = Some (U ''X-Key=abc'')\<rparr>"

text \<open>
  What a successful upload by a new uploader leaves on the remote agent: the flow is
  the one that the listing of the flows gives for the flow name, the dispatcher
  webhook is there when the graph needs it, and so is every page and intent of the
  graph.
\<close>

definition needs_dispatcher :: "data \<Rightarrow> bool" where
  "needs_dispatcher graph \<longleftrightarrow>
     (\<exists>r \<in> set (d_routes graph). truthy (r_webhook_action r)) \<or> d_webhooks graph \<noteq> []"

definition uploaded :: "data \<Rightarrow> pystr \<Rightarrow> nat \<Rightarrow> sync_state \<Rightarrow> bool" where
  "uploaded graph name flow s \<longleftrightarrow>
     map_of (index_by_name fst snd (flow_ids s)) name = Some flow
     \<and> (needs_dispatcher graph \<longrightarrow> U ''Dispatcher'' \<in> webhook_names s)
     \<and> (\<forall>entry \<in> set (d_pages graph). (flow, fst entry) \<in> page_names s)
     \<and> (\<forall>entry \<in> set (d_intents graph). fst entry \<in> intent_names s)"


section \<open>Facts about the string primitives\<close>

lemma dropWhile_noop: "s = [] \<or> \<not> P (hd s) \<Longrightarrow> dropWhile P s = s"
  by (cases s) auto

lemma rstrip_prefix: "rev (dropWhile P (rev d)) @ rev (takeWhile P (rev d)) = d"
  by (metis rev_append rev_rev_ident takeWhile_dropWhile_id)

lemma hd_rstrip: "rev (dropWhile P (rev d)) \<noteq> [] \<Longrightarrow> hd (rev (dropWhile P (rev d))) = hd d"
  by (metis hd_append2 rstrip_prefix)

lemma dropWhile_rev_dropWhile:
  "dropWhile P (rev (dropWhile P (rev (dropWhile P s)))) = rev (dropWhile P (rev (dropWhile P s)))"
proof (rule dropWhile_noop, cases "rev (dropWhile P (rev (dropWhile P s))) = []")
  case True
  then show "rev (dropWhile P (rev (dropWhile P s))) = []
      \<or> \<not> P (hd (rev (dropWhile P (rev (dropWhile P s)))))"
    by simp
next
  case False
  have "dropWhile P s \<noteq> []"
  proof
    assume "dropWhile P s = []"
    with False show False by simp
  qed
  then have "\<not> P (hd (dropWhile P s))" by (simp add: hd_dropWhile)
  then show "rev (dropWhile P (rev (dropWhile P s))) = []
      \<or> \<not> P (hd (rev (dropWhile P (rev (dropWhile P s)))))"
    using hd_rstrip[OF False] by simp
qed

lemma py_strip_idem: "py_strip (py_strip s) = py_strip s"
  by (simp add: py_strip_def dropWhile_rev_dropWhile)

lemmas lit_defs = U_def emdash_def is_space_def py_strip_def

section \<open>Properties of the cell normalizer\<close>

lemma sanitize_empty_stripped: "t \<in> sanitize_empty \<Longrightarrow> py_strip t = t"
  by (auto simp: sanitize_empty_def lit_defs)

text \<open>
  C6, as the spec words it, fails: the sentinel test of \<open>sanitize\<close> is an exact,
  case-sensitive membership test in a set of nine strings, so the lower-case word
  \<open>none\<close> is returned as a value and is not mapped to the absent marker.
\<close>

theorem sanitize_none_lowercase_kept:
  "sanitize (Str (U ''none'')) = Some (U ''none'')"
  by (simp add: sanitize_def sanitize_empty_def lit_defs)

text \<open>
  C6, amended: \<open>sanitize\<close> returns the absent marker or a trimmed string that is not
  one of the nine tokens; an absent input (None or NaN) gives absent; each of the nine
  tokens em dash, \<open>-\<close>, \<open>__\<close>, \<open>_\<close>, the empty string, \<open>N/A\<close>, \<open>n/a\<close>, \<open>nan\<close>,
  \<open>None\<close> gives absent; and a string value gives absent exactly when its trimmed
  text is one of these nine tokens, compared exactly and with case.
\<close>

theorem sanitize_exact_sentinels:
  "sanitize PyNone = None \<and> sanitize NaN = None
   \<and> (\<forall>t \<in> sanitize_empty. sanitize (Str t) = None)
   \<and> (sanitize (Str v) = None \<longleftrightarrow> py_strip v \<in> sanitize_empty)
   \<and> (\<forall>s. sanitize c = Some s \<longrightarrow>
         py_strip s = s \<and> s \<notin> sanitize_empty \<and> c = Str (py_str c) \<and> s = py_strip (py_str c))"
proof -
  have a: "\<forall>t \<in> sanitize_empty. sanitize (Str t) = None"
    by (simp add: sanitize_def sanitize_empty_stripped)
  have b: "sanitize (Str v) = None \<longleftrightarrow> py_strip v \<in> sanitize_empty"
    by (simp add: sanitize_def Let_def)
  have c: "\<forall>s. sanitize c = Some s \<longrightarrow>
         py_strip s = s \<and> s \<notin> sanitize_empty \<and> c = Str (py_str c) \<and> s = py_strip (py_str c)"
    by (cases c) (auto simp: sanitize_def Let_def py_str_def py_strip_idem split: if_splits)
  show ?thesis using a b c by (simp add: sanitize_def)
qed

theorem sanitize_exact_sentinels_witness:
  "sanitize (Str (U ''N/A'')) = None
   \<and> sanitize (Str (U '' Welcome ! '')) = Some (U ''Welcome !'')
   \<and> py_strip (U ''Welcome !'') = U ''Welcome !''
   \<and> U ''N/A'' \<in> sanitize_empty \<and> U ''Welcome !'' \<notin> sanitize_empty"
proof -
  have m: "U ''N/A'' \<in> sanitize_empty" by (simp add: sanitize_empty_def lit_defs)
  have v: "sanitize (Str (U '' Welcome ! '')) = Some (U ''Welcome !'')"
    by (simp add: sanitize_def sanitize_empty_def lit_defs)
  note T = sanitize_exact_sentinels [of "U ''N/A''" "Str (U '' Welcome ! '')"]
  from T m have n: "sanitize (Str (U ''N/A'')) = None" by blast
  from T v have s: "py_strip (U ''Welcome !'') = U ''Welcome !''
      \<and> U ''Welcome !'' \<notin> sanitize_empty"
    by blast
  from n v s m show ?thesis by blast
qed

section \<open>Properties of the chip parser\<close>

lemma stripped_py_strip: "stripped (py_strip s)"
proof (cases "py_strip s = []")
  case True
  then show ?thesis by (simp add: stripped_def)
next
  case False
  let ?d = "dropWhile is_space s"
  let ?x = "dropWhile is_space (rev ?d)"
  from False have x: "?x \<noteq> []" by (simp add: py_strip_def)
  have d: "?d \<noteq> []"
  proof
    assume "?d = []"
    with x show False by simp
  qed
  have "hd (py_strip s) = hd ?d" using False hd_rstrip [of is_space ?d] by (simp add: py_strip_def)
  moreover have "\<not> is_space (hd ?d)" using d by (simp add: hd_dropWhile)
  moreover have "last (py_strip s) = hd ?x" using x by (simp add: py_strip_def last_rev)
  moreover have "\<not> is_space (hd ?x)" using x hd_dropWhile by blast
  ultimately show ?thesis by (simp add: stripped_def)
qed

lemma py_strip_stripped: "stripped s \<Longrightarrow> py_strip s = s"
proof (cases "s = []")
  case True
  then show ?thesis by (simp add: py_strip_def)
next
  case False
  assume "stripped s"
  with False have h: "\<not> is_space (hd s)" and l: "\<not> is_space (last s)"
    by (simp_all add: stripped_def)
  have 1: "dropWhile is_space s = s" using h by (simp add: dropWhile_noop)
  have "hd (rev s) = last s" using False by (simp add: hd_rev)
  then have 2: "dropWhile is_space (rev s) = rev s" using l by (simp add: dropWhile_noop)
  show ?thesis by (simp add: py_strip_def 1 2)
qed

lemma collapse_hd_last:
  "s \<noteq> [] \<Longrightarrow> py_replace [dq, dq] [dq] s \<noteq> [] \<and> hd (py_replace [dq, dq] [dq] s) = hd s
     \<and> last (py_replace [dq, dq] [dq] s) = last s"
proof (induction "[dq, dq]" "[dq]" s rule: py_replace.induct)
  case 1
  then show ?case by simp
next
  case (2 x xs)
  show ?case
  proof (cases "take 2 (x # xs) = [dq, dq]")
    case True
    then obtain ys where xs: "xs = dq # ys" and x: "x = dq"
      by (cases xs) auto
    show ?thesis
    proof (cases "ys = []")
      case True
      then show ?thesis using xs x by simp
    next
      case False
      then show ?thesis using "2.hyps"(1) xs x by simp
    qed
  next
    case False
    then have step: "py_replace [dq, dq] [dq] (x # xs) = x # py_replace [dq, dq] [dq] xs"
      by auto
    show ?thesis
    proof (cases "xs = []")
      case True
      then show ?thesis by simp
    next
      case nonempty: False
      have "py_replace [dq, dq] [dq] xs \<noteq> [] \<and> hd (py_replace [dq, dq] [dq] xs) = hd xs
          \<and> last (py_replace [dq, dq] [dq] xs) = last xs"
        using "2.hyps"(2) False nonempty by simp
      then show ?thesis using nonempty by (simp add: step del: py_replace.simps)
    qed
  qed
qed

lemma stripped_collapse: "stripped s \<Longrightarrow> stripped (collapse_quotes s)"
  using collapse_hd_last [of s] by (cases "s = []") (auto simp: stripped_def collapse_quotes_def)

lemma strip_wrapping_quotes_stripped:
  "stripped s \<Longrightarrow> strip_wrapping_quotes s = unquote_once (collapse_quotes s)"
  by (simp add: strip_wrapping_quotes_def unquote_once_def collapse_quotes_def py_strip_stripped Let_def)


lemma remdups_snoc: "remdups (xs @ [c]) = remdups (filter (\<lambda>x. x \<noteq> c) xs) @ [c]"
  by (induction xs) auto

lemma first_occurrences_Cons:
  "first_occurrences (c # cs) = c # first_occurrences (filter (\<lambda>x. x \<noteq> c) cs)"
  by (simp add: first_occurrences_def remdups_snoc rev_filter)

lemma dedupe_chips_eq:
  "dedupe_chips cs (set out) out = out @ first_occurrences (filter (\<lambda>c. c \<notin> set out) cs)"
proof (induction cs arbitrary: out)
  case Nil
  then show ?case by (simp add: first_occurrences_def)
next
  case (Cons c cs)
  show ?case
  proof (cases "c \<in> set out")
    case True
    then show ?thesis using Cons.IH [of out] by simp
  next
    case False
    have "dedupe_chips (c # cs) (set out) out = dedupe_chips cs (set (out @ [c])) (out @ [c])"
      using False by simp
    also have "\<dots> = (out @ [c]) @ first_occurrences (filter (\<lambda>x. x \<notin> set (out @ [c])) cs)"
      by (rule Cons.IH)
    also have "filter (\<lambda>x. x \<notin> set (out @ [c])) cs
        = filter (\<lambda>x. x \<noteq> c) (filter (\<lambda>x. x \<notin> set out) cs)"
      by (auto intro: filter_cong)
    finally show ?thesis using False by (simp add: first_occurrences_Cons)
  qed
qed

lemma dedupe_chips_first: "dedupe_chips cs {} [] = first_occurrences cs"
  using dedupe_chips_eq [of cs "[]"] by simp

lemma distinct_first_occurrences: "distinct (first_occurrences xs)"
  by (simp add: first_occurrences_def)

lemma set_first_occurrences: "set (first_occurrences xs) = set xs"
  by (simp add: first_occurrences_def)

lemma collect_chips_eq:
  "collect_chips ps chips = chips @ filter (\<lambda>p. p \<noteq> [] \<and> p \<notin> chip_empty)
     (map (\<lambda>p. strip_wrapping_quotes (collapse_quotes (py_strip p))) ps)"
proof (induction ps arbitrary: chips)
  case Nil
  then show ?case by simp
next
  case (Cons p ps)
  have e: "strip_wrapping_quotes (collapse_quotes []) = []"
    by (simp add: strip_wrapping_quotes_def collapse_quotes_def py_strip_def)
  show ?case
    by (cases "py_strip p = []") (simp_all add: Cons.IH Let_def e collapse_quotes_def [symmetric])
qed


text \<open>
  C5, as the spec words it, fails on two cells. On a cell of four double quotes
  \<open>parse_chips\<close> collapses doubled quotes itself and \<open>strip_wrapping_quotes\<close>
  collapses them once more, so the four quotes become one quote, which is kept as a
  chip, where one collapse followed by the removal of one layer of quotes leaves
  nothing. On the cell with the five lines \<open>Yes\<close>, \<open>N/A\<close>, \<open>n/a\<close>, \<open>nan\<close> and
  \<open>None\<close> the last four candidates are sentinel tokens and are kept as chips:
  \<open>parse_chips\<close> drops a candidate only when it is empty or one of em dash, \<open>-\<close>,
  \<open>__\<close>, \<open>_\<close>.
\<close>

theorem parse_chips_four_quotes:
  "parse_chips (Str [dq, dq, dq, dq]) = [[dq]] \<and> spec_parse_chips [dq, dq, dq, dq] = []
   \<and> parse_chips
        (Str (U ''Yes'' @ [10] @ U ''N/A'' @ [10] @ U ''n/a'' @ [10] @ U ''nan'' @ [10] @ U ''None''))
       = [U ''Yes'', U ''N/A'', U ''n/a'', U ''nan'', U ''None'']
   \<and> spec_parse_chips
        (U ''Yes'' @ [10] @ U ''N/A'' @ [10] @ U ''n/a'' @ [10] @ U ''nan'' @ [10] @ U ''None'')
       = [U ''Yes'']"
  by (simp add: parse_chips_def spec_parse_chips_def lit_defs chip_empty_def chip_parts_def
      dq_def py_str_def strip_wrapping_quotes_def unquote_once_def collapse_quotes_def
      first_occurrences_def sentinel_token_def)

lemma candidate_twice_collapsed:
  "strip_wrapping_quotes (collapse_quotes (py_strip p))
     = unquote_once (collapse_quotes (collapse_quotes (py_strip p)))"
  by (simp add: strip_wrapping_quotes_stripped stripped_collapse stripped_py_strip)

lemma chip_empty_alone:
  assumes "raw \<in> insert [] chip_empty"
  shows "filter (\<lambda>p. p \<noteq> [] \<and> p \<notin> chip_empty)
     (map (\<lambda>p. strip_wrapping_quotes (collapse_quotes (py_strip p))) (chip_parts raw)) = []"
proof -
  have "chip_parts raw = [raw]"
    using assms by (auto simp: chip_parts_def chip_empty_def lit_defs)
  moreover have "strip_wrapping_quotes (collapse_quotes (py_strip raw)) = raw"
    using assms
    by (auto simp: chip_empty_def lit_defs strip_wrapping_quotes_def collapse_quotes_def dq_def)
  ultimately show ?thesis using assms by auto
qed

text \<open>
  C5, amended: \<open>parse_chips\<close> gives no chip for a cell that is None; for a cell that
  is a text it splits the trimmed text on newlines, else on semicolons, else takes it
  whole; each candidate is trimmed, has doubled quotes collapsed twice in succession,
  has one layer of wrapping quotes removed, and is dropped when it is empty or one of
  em dash, \<open>-\<close>, \<open>__\<close>, \<open>_\<close>; the result has no duplicates and keeps the order of
  first occurrence.
\<close>

theorem parse_chips_pipeline:
  "parse_chips PyNone = [] \<and> distinct (parse_chips c)
   \<and> parse_chips (Str t) =
        first_occurrences
          (filter (\<lambda>p. p \<noteq> [] \<and> p \<notin> {emdash, U ''-'', U ''__'', U ''_''})
             (map (\<lambda>p. unquote_once (collapse_quotes (collapse_quotes (py_strip p))))
                (chip_parts (py_strip t))))"
proof -
  let ?keep = "\<lambda>p. p \<noteq> [] \<and> p \<notin> chip_empty"
  let ?cand = "\<lambda>p. strip_wrapping_quotes (collapse_quotes (py_strip p))"
  have eq: "parse_chips c
      = first_occurrences (filter ?keep (map ?cand (chip_parts (py_strip (py_str c)))))"
    if "c \<noteq> PyNone" for c
  proof -
    let ?raw = "py_strip (py_str c)"
    have loops: "dedupe_chips (collect_chips (chip_parts ?raw) []) {} []
        = first_occurrences (filter ?keep (map ?cand (chip_parts ?raw)))"
      by (simp add: dedupe_chips_first collect_chips_eq)
    have early: "?raw = [] \<or> ?raw \<in> insert [] chip_empty \<Longrightarrow>
        first_occurrences (filter ?keep (map ?cand (chip_parts ?raw))) = []"
      using chip_empty_alone [of ?raw] by (auto simp: first_occurrences_def)
    show ?thesis using loops early that by (auto simp: parse_chips_def Let_def)
  qed
  have d: "distinct (parse_chips c)"
  proof (cases "c = PyNone")
    case True
    then show ?thesis by (simp add: parse_chips_def)
  next
    case False
    then show ?thesis using eq [of c] by (simp add: distinct_first_occurrences)
  qed
  have n: "parse_chips PyNone = []" by (simp add: parse_chips_def)
  have t: "parse_chips (Str t) =
        first_occurrences
          (filter (\<lambda>p. p \<noteq> [] \<and> p \<notin> {emdash, U ''-'', U ''__'', U ''_''})
             (map (\<lambda>p. unquote_once (collapse_quotes (collapse_quotes (py_strip p))))
                (chip_parts (py_strip t))))"
    using eq [of "Str t"] by (simp add: candidate_twice_collapsed py_str_def chip_empty_def)
  from n d t show ?thesis by blast
qed

theorem parse_chips_pipeline_witness:
  "parse_chips
     (Str ([dq] @ U ''Yes'' @ [dq, 10, dq] @ U ''No'' @ [dq, 10] @ U ''Yes'' @ [10] @ U ''__''))
     = [U ''Yes'', U ''No'']
   \<and> distinct [U ''Yes'', U ''No'']"
proof -
  let ?t = "[dq] @ U ''Yes'' @ [dq, 10, dq] @ U ''No'' @ [dq, 10] @ U ''Yes'' @ [10] @ U ''__''"
  have v: "first_occurrences
            (filter (\<lambda>p. p \<noteq> [] \<and> p \<notin> {emdash, U ''-'', U ''__'', U ''_''})
               (map (\<lambda>p. unquote_once (collapse_quotes (collapse_quotes (py_strip p))))
                  (chip_parts (py_strip ?t)))) = [U ''Yes'', U ''No'']"
    by (simp add: first_occurrences_def chip_parts_def lit_defs dq_def
        unquote_once_def collapse_quotes_def)
  from parse_chips_pipeline [of "Str ?t" ?t] have "parse_chips (Str ?t) = first_occurrences
            (filter (\<lambda>p. p \<noteq> [] \<and> p \<notin> {emdash, U ''-'', U ''__'', U ''_''})
               (map (\<lambda>p. unquote_once (collapse_quotes (collapse_quotes (py_strip p))))
                  (chip_parts (py_strip ?t))))"
    by blast
  with v have r: "parse_chips (Str ?t) = [U ''Yes'', U ''No'']" by simp
  from parse_chips_pipeline [of "Str ?t" ?t] have "distinct (parse_chips (Str ?t))" by blast
  with r show ?thesis by simp
qed

section \<open>Properties of the next-page parser\<close>

lemma clean_targets_eq:
  "[] \<notin> set ts \<Longrightarrow>
     clean_targets ts cleaned = cleaned @ map (\<lambda>t. if t \<in> next_empty then None else Some t) ts"
  by (induction ts arbitrary: cleaned) auto

lemma split_targets_nonempty: "[] \<notin> set (split_targets sep s)"
  by (auto simp: split_targets_def)

lemma pad_targets_eq:
  "pad_targets cleaned k
     = cleaned @ replicate (k - length cleaned) (if cleaned = [] then None else last cleaned)"
proof (induction cleaned k rule: pad_targets.induct)
  case (1 cleaned k)
  show ?case
  proof (cases "length cleaned < k")
    case True
    then obtain n where n: "k - length cleaned = Suc n" by (metis Suc_diff_Suc)
    then have n': "k - Suc (length cleaned) = n" by simp
    show ?thesis
      using True "1.IH" n n' by (subst pad_targets.simps) simp
  next
    case False
    then show ?thesis by (subst pad_targets.simps) simp
  qed
qed

lemma concat_replicate_single: "concat (replicate k [x]) = replicate k x"
  by (induction k) auto

lemma clean_split_targets:
  "clean_targets (split_targets sep s) []
     = map (\<lambda>t. if t \<in> next_empty then None else Some t) (split_targets sep s)"
  by (simp add: clean_targets_eq split_targets_nonempty)

lemma broadcast_single: "length ts = 1 \<Longrightarrow> concat (replicate k ts) = replicate k (hd ts)"
proof -
  assume "length ts = 1"
  then obtain x where "ts = [x]" by (cases ts) auto
  then show ?thesis by (simp add: concat_replicate_single)
qed

lemma parse_next_pages_absent:
  "cell = PyNone \<or> py_strip (py_str cell) \<in> insert [] next_empty \<Longrightarrow>
     parse_next_pages cell k = (replicate k None, [])"
  by (auto simp: parse_next_pages_def Let_def)

lemma parse_next_pages_split:
  assumes "cell \<noteq> PyNone" and "py_strip (py_str cell) \<notin> insert [] next_empty"
    and "sep = 10 \<and> 10 \<in> set (py_strip (py_str cell))
       \<or> sep = 47 \<and> 10 \<notin> set (py_strip (py_str cell)) \<and> 47 \<in> set (py_strip (py_str cell))
          \<and> \<not> startswith (py_strip (py_str cell)) (U ''http'')"
  shows "parse_next_pages cell k
     = spec_reconcile (map (\<lambda>t. if t \<in> next_empty then None else Some t)
         (split_targets sep (py_strip (py_str cell)))) k"
proof -
  let ?s = "py_strip (py_str cell)"
  let ?ts = "map (\<lambda>t. if t \<in> next_empty then None else Some t) (split_targets sep ?s)"
  have "parse_next_pages cell k =
      (if length ?ts = 1 then (concat (replicate k ?ts), [])
       else if length ?ts = k then (?ts, [])
       else (take k (pad_targets ?ts k), [CountMismatch (length ?ts) k]))"
    using assms unfolding parse_next_pages_def Let_def clean_split_targets [symmetric]
    by auto
  also have "\<dots> = spec_reconcile ?ts k"
    unfolding spec_reconcile_def pad_targets_eq using broadcast_single [of ?ts k] by presburger
  finally show ?thesis .
qed


lemma parse_next_pages_whole:
  assumes "cell \<noteq> PyNone" and "py_strip (py_str cell) \<notin> insert [] next_empty"
    and "10 \<notin> set (py_strip (py_str cell))"
    and "\<not> (47 \<in> set (py_strip (py_str cell)) \<and> \<not> startswith (py_strip (py_str cell)) (U ''http''))"
  shows "parse_next_pages cell k = spec_reconcile [Some (py_strip (py_str cell))] k"
  using assms unfolding parse_next_pages_def Let_def spec_reconcile_def by auto

lemma end_token_next_empty: "end_token t \<longleftrightarrow> t \<in> next_empty"
  by (auto simp: end_token_def next_empty_def)

lemma parse_next_pages_present:
  assumes "cell \<noteq> PyNone" and "py_strip (py_str cell) \<notin> insert [] next_empty"
  shows "parse_next_pages cell k = spec_reconcile (resolved_targets (py_strip (py_str cell))) k"
proof -
  let ?s = "py_strip (py_str cell)"
  consider (nl) "10 \<in> set ?s"
    | (slash) "10 \<notin> set ?s" "47 \<in> set ?s \<and> \<not> startswith ?s (U ''http'')"
    | (whole) "10 \<notin> set ?s" "\<not> (47 \<in> set ?s \<and> \<not> startswith ?s (U ''http''))"
    by blast
  then show ?thesis
  proof cases
    case nl
    then have "resolved_targets ?s
        = map (\<lambda>t. if t \<in> next_empty then None else Some t) (split_targets 10 ?s)"
      by (simp add: resolved_targets_def end_token_next_empty)
    then show ?thesis using parse_next_pages_split [OF assms, of 10 k] nl by simp
  next
    case slash
    then have "resolved_targets ?s
        = map (\<lambda>t. if t \<in> next_empty then None else Some t) (split_targets 47 ?s)"
      by (simp add: resolved_targets_def end_token_next_empty)
    then show ?thesis using parse_next_pages_split [OF assms, of 47 k] slash by simp
  next
    case whole
    then have "resolved_targets ?s = [Some ?s]" by (auto simp: resolved_targets_def)
    then show ?thesis using parse_next_pages_whole [OF assms whole] by simp
  qed
qed

lemma length_spec_reconcile: "length (fst (spec_reconcile ts k)) = k"
  by (auto simp: spec_reconcile_def)

lemma length_parse_next_pages: "length (fst (parse_next_pages cell k)) = k"
proof (cases "cell = PyNone \<or> py_strip (py_str cell) \<in> insert [] next_empty")
  case True
  then have "parse_next_pages cell k = (replicate k None, [])"
    by (rule parse_next_pages_absent)
  then show ?thesis by simp
next
  case False
  then have "parse_next_pages cell k
      = spec_reconcile (resolved_targets (py_strip (py_str cell))) k"
    using parse_next_pages_present by blast
  then show ?thesis by (simp add: length_spec_reconcile)
qed

text \<open>
  C4, as the spec words it, fails on cells that hold a sentinel token other than the
  six of \<open>parse_next_pages\<close>: the text \<open>none\<close>, which the cell normalizer hands on
  as a value, is broadcast as the name of a page, and so are \<open>nan\<close>, \<open>None\<close> and
  a run of three underscores; in a slash-separated cell such a token is a target too.
\<close>

theorem parse_next_pages_sentinel_as_page:
  "parse_next_pages (cell_of (sanitize (Str (U ''none'')))) 2
     = ([Some (U ''none''), Some (U ''none'')], [])
   \<and> parse_next_pages (Str (U ''nan'')) 2 = ([Some (U ''nan''), Some (U ''nan'')], [])
   \<and> parse_next_pages (Str (U ''None'')) 2 = ([Some (U ''None''), Some (U ''None'')], [])
   \<and> parse_next_pages (Str (U ''___'')) 2 = ([Some (U ''___''), Some (U ''___'')], [])
   \<and> parse_next_pages (Str (U ''PageA/nan'')) 2 = ([Some (U ''PageA''), Some (U ''nan'')], [])"
  by (simp add: parse_next_pages_def sanitize_def sanitize_empty_def cell_of_def py_str_def
      next_empty_def split_targets_def startswith_def lit_defs Let_def numeral_2_eq_2)

text \<open>
  C4, amended: for every cell and every chip count \<open>k \<ge> 1\<close>, \<open>parse_next_pages\<close>
  returns exactly \<open>k\<close> targets. A cell that is None, and a text that after trimming is
  empty or exactly one of the six tokens em dash, \<open>-\<close>, \<open>__\<close>, \<open>_\<close>, \<open>N/A\<close>,
  \<open>n/a\<close>, gives \<open>k\<close> times none and no warning. Any other text gives the
  reconciliation of its resolved targets: one target broadcast, \<open>k\<close> targets paired by
  position, and otherwise the list padded with its last element (none if empty), cut
  to \<open>k\<close>, together with the mismatch warning. The function has no error result and
  its padding loop terminates.
\<close>

theorem parse_next_pages_reconciles:
  "1 \<le> k \<Longrightarrow>
     length (fst (parse_next_pages cell k)) = k
     \<and> parse_next_pages PyNone k = (replicate k None, [])
     \<and> (py_strip t = [] \<or> end_token (py_strip t) \<longrightarrow>
          parse_next_pages (Str t) k = (replicate k None, []))
     \<and> (py_strip t \<noteq> [] \<and> \<not> end_token (py_strip t) \<longrightarrow>
          parse_next_pages (Str t) k = spec_reconcile (resolved_targets (py_strip t)) k)"
proof -
  have n: "parse_next_pages PyNone k = (replicate k None, [])"
    using parse_next_pages_absent [of PyNone k] by simp
  have a: "py_strip t = [] \<or> end_token (py_strip t) \<longrightarrow>
      parse_next_pages (Str t) k = (replicate k None, [])"
    using parse_next_pages_absent [of "Str t" k]
    by (auto simp: py_str_def end_token_next_empty)
  have p: "py_strip t \<noteq> [] \<and> \<not> end_token (py_strip t) \<longrightarrow>
      parse_next_pages (Str t) k = spec_reconcile (resolved_targets (py_strip t)) k"
    using parse_next_pages_present [of "Str t" k]
    by (auto simp: py_str_def end_token_next_empty)
  have l: "length (fst (parse_next_pages cell k)) = k"
    by (rule length_parse_next_pages)
  from l n a p show ?thesis by blast
qed

theorem parse_next_pages_reconciles_witness:
  "parse_next_pages (Str (U ''PageA/PageB'')) 3
     = ([Some (U ''PageA''), Some (U ''PageB''), Some (U ''PageB'')], [CountMismatch 2 3])
   \<and> length (fst (parse_next_pages (Str (U ''PageA/PageB'')) 3)) = 3
   \<and> parse_next_pages (Str (U '' N/A '')) 3 = ([None, None, None], [])
   \<and> parse_next_pages (Str (U ''PageA/-/PageC'')) 3
     = ([Some (U ''PageA''), None, Some (U ''PageC'')], [])"
proof -
  let ?a = "U ''PageA/PageB''" and ?b = "U '' N/A ''" and ?c = "U ''PageA/-/PageC''"
  have k: "(1::nat) \<le> 3" by simp
  have ca: "py_strip ?a \<noteq> [] \<and> \<not> end_token (py_strip ?a)"
    by (simp add: end_token_def lit_defs)
  have cb: "py_strip ?b = [] \<or> end_token (py_strip ?b)"
    by (simp add: end_token_def lit_defs)
  have cc: "py_strip ?c \<noteq> [] \<and> \<not> end_token (py_strip ?c)"
    by (simp add: end_token_def lit_defs)
  have va: "spec_reconcile (resolved_targets (py_strip ?a)) 3
      = ([Some (U ''PageA''), Some (U ''PageB''), Some (U ''PageB'')], [CountMismatch 2 3])"
    by (simp add: spec_reconcile_def resolved_targets_def split_targets_def startswith_def
        end_token_def lit_defs)
  have vc: "spec_reconcile (resolved_targets (py_strip ?c)) 3
      = ([Some (U ''PageA''), None, Some (U ''PageC'')], [])"
    by (simp add: spec_reconcile_def resolved_targets_def split_targets_def startswith_def
        end_token_def lit_defs)
  note A = parse_next_pages_reconciles [OF k, of "Str ?a" ?a]
  note B = parse_next_pages_reconciles [OF k, of "Str ?b" ?b]
  note C = parse_next_pages_reconciles [OF k, of "Str ?c" ?c]
  from A ca have "parse_next_pages (Str ?a) 3 = spec_reconcile (resolved_targets (py_strip ?a)) 3"
    by blast
  with va have ra: "parse_next_pages (Str ?a) 3
      = ([Some (U ''PageA''), Some (U ''PageB''), Some (U ''PageB'')], [CountMismatch 2 3])"
    by simp
  from A have la: "length (fst (parse_next_pages (Str ?a) 3)) = 3" by blast
  from B cb have "parse_next_pages (Str ?b) 3 = (replicate 3 None, [])" by blast
  then have rb: "parse_next_pages (Str ?b) 3 = ([None, None, None], [])"
    by (simp add: numeral_3_eq_3)
  from C cc have "parse_next_pages (Str ?c) 3 = spec_reconcile (resolved_targets (py_strip ?c)) 3"
    by blast
  with vc have rc: "parse_next_pages (Str ?c) 3
      = ([Some (U ''PageA''), None, Some (U ''PageC'')], [])"
    by simp
  from ra la rb rc show ?thesis by blast
qed

section \<open>Properties of the graph compiler\<close>

lemma emittedI:
  assumes "d_pages st' = d_pages st" "all_pages st' = all_pages st"
    "d_end_pages st' = d_end_pages st" "d_first_page st' = d_first_page st"
    "d_routes st' = d_routes st @ new"
    "\<forall>r \<in> set new. r_page r = page \<and> r_next_page r \<noteq> None \<and> r_next_page r \<in> set nps"
    "pages_with_routes st' = pages_with_routes st \<union> r_page ` set new"
    "hv' = (hv \<or> new \<noteq> [])"
  shows "emitted page nps (st, hv) (st', hv')"
  unfolding emitted_def fst_conv snd_conv using assms by blast

lemma emitted_trans:
  assumes "emitted page nps a b" and "emitted page nps b c"
  shows "emitted page nps a c"
proof -
  from assms(1) obtain new1 where 1:
    "d_pages (fst b) = d_pages (fst a)" "all_pages (fst b) = all_pages (fst a)"
    "d_end_pages (fst b) = d_end_pages (fst a)" "d_first_page (fst b) = d_first_page (fst a)"
    "d_routes (fst b) = d_routes (fst a) @ new1"
    "\<forall>r \<in> set new1. r_page r = page \<and> r_next_page r \<noteq> None \<and> r_next_page r \<in> set nps"
    "pages_with_routes (fst b) = pages_with_routes (fst a) \<union> r_page ` set new1"
    "snd b = (snd a \<or> new1 \<noteq> [])"
    unfolding emitted_def by blast
  from assms(2) obtain new2 where 2:
    "d_pages (fst c) = d_pages (fst b)" "all_pages (fst c) = all_pages (fst b)"
    "d_end_pages (fst c) = d_end_pages (fst b)" "d_first_page (fst c) = d_first_page (fst b)"
    "d_routes (fst c) = d_routes (fst b) @ new2"
    "\<forall>r \<in> set new2. r_page r = page \<and> r_next_page r \<noteq> None \<and> r_next_page r \<in> set nps"
    "pages_with_routes (fst c) = pages_with_routes (fst b) \<union> r_page ` set new2"
    "snd c = (snd b \<or> new2 \<noteq> [])"
    unfolding emitted_def by blast
  have r: "d_routes (fst c) = d_routes (fst a) @ (new1 @ new2)" using 1(5) 2(5) by simp
  have q: "\<forall>r \<in> set (new1 @ new2). r_page r = page \<and> r_next_page r \<noteq> None \<and> r_next_page r \<in> set nps"
    using 1(6) 2(6) by auto
  have p: "pages_with_routes (fst c) = pages_with_routes (fst a) \<union> r_page ` set (new1 @ new2)"
    using 1(7) 2(7) by auto
  have h: "snd c = (snd a \<or> new1 @ new2 \<noteq> [])" using 1(8) 2(8) by auto
  show ?thesis
    unfolding emitted_def using 1(1-4) 2(1-4) r q p h by metis
qed

lemma emitted_intents: "emitted page nps (st, hv) (st\<lparr>d_intents := x\<rparr>, hv)"
  by (rule emittedI [where new = "[]"]) simp_all

lemma emitted_route:
  "Some target \<in> set nps \<Longrightarrow>
   emitted page nps (st, hv)
     (st\<lparr>d_routes := d_routes st @ [new_route page name target tag ps],
        pages_with_routes := insert page (pages_with_routes st)\<rparr>, True)"
  by (rule emittedI [where new = "[new_route page name target tag ps]"])
     (simp_all add: new_route_def)


lemma no_chip_route_emitted:
  assumes "next_pages \<noteq> []"
  shows "emitted page next_pages (st, False)
     (no_chip_route lower page intent_name_raw user_example webhook_tag param_set next_pages
        row_idx st)"
proof -
  define name where "name = (if truthy intent_name_raw then the intent_name_raw
             else U ''Intent_'' @ slugify lower page @ U ''_'' @ py_str_nat row_idx)"
  define st1 where "st1 = st\<lparr>d_intents := AList.update name
      (add_example user_example (lookup_default name [] (d_intents st))) (d_intents st)\<rparr>"
  have m: "next_pages ! 0 \<in> set next_pages" using assms by simp
  have a: "emitted page next_pages (st, False) (st1, False)"
    unfolding st1_def by (rule emitted_intents)
  show ?thesis
  proof (cases "next_pages ! 0")
    case None
    then have "no_chip_route lower page intent_name_raw user_example webhook_tag param_set
        next_pages row_idx st = (st1, False)"
      by (simp add: no_chip_route_def Let_def st1_def name_def)
    with a show ?thesis by simp
  next
    case (Some target)
    then have e: "no_chip_route lower page intent_name_raw user_example webhook_tag param_set
        next_pages row_idx st
        = (st1\<lparr>d_routes := d_routes st1 @ [new_route page name target webhook_tag param_set],
               pages_with_routes := insert page (pages_with_routes st1)\<rparr>, True)"
      by (simp add: no_chip_route_def Let_def st1_def name_def)
    from Some m have "Some target \<in> set next_pages" by simp
    then have "emitted page next_pages (st1, False)
        (st1\<lparr>d_routes := d_routes st1 @ [new_route page name target webhook_tag param_set],
               pages_with_routes := insert page (pages_with_routes st1)\<rparr>, True)"
      by (rule emitted_route)
    with a e show ?thesis using emitted_trans by metis
  qed
qed

lemma chip_loop_emitted:
  assumes "next_pages \<noteq> []"
  shows "emitted page next_pages sv
     (chip_loop lower page intent_name_raw user_example webhook_tag param_set next_pages i
        chips sv)"
proof (induction chips arbitrary: i sv)
  case Nil
  show ?case by (simp add: emitted_def)
next
  case (Cons chip rest)
  obtain st hv where sv: "sv = (st, hv)" by (cases sv)
  define name where "name = (if truthy intent_name_raw then the intent_name_raw
             else U ''Intent_'' @ slugify lower page) @ U '' :: '' @ chip"
  define st1 where "st1 = st\<lparr>d_intents := AList.update name
      (add_example user_example (append_new chip (lookup_default name [] (d_intents st))))
      (d_intents st)\<rparr>"
  define v where "v = (if i < length next_pages then next_pages ! i else next_pages ! 0)"
  have m: "v \<in> set next_pages" using assms by (auto simp: v_def)
  have a: "emitted page next_pages (st, hv) (st1, hv)"
    unfolding st1_def by (rule emitted_intents)
  show ?case
  proof (cases v)
    case None
    then have e: "chip_loop lower page intent_name_raw user_example webhook_tag param_set
        next_pages i (chip # rest) sv
        = chip_loop lower page intent_name_raw user_example webhook_tag param_set
            next_pages (Suc i) rest (st1, hv)"
      unfolding v_def by (simp add: Let_def sv st1_def name_def)
    show ?thesis
      by (subst e, subst sv, rule emitted_trans [OF a Cons.IH])
  next
    case (Some target)
    let ?st2 = "st1\<lparr>d_routes := d_routes st1 @ [new_route page name target webhook_tag param_set],
               pages_with_routes := insert page (pages_with_routes st1)\<rparr>"
    from Some have e: "chip_loop lower page intent_name_raw user_example webhook_tag param_set
        next_pages i (chip # rest) sv
        = chip_loop lower page intent_name_raw user_example webhook_tag param_set
            next_pages (Suc i) rest (?st2, True)"
      unfolding v_def by (simp add: Let_def sv st1_def name_def)
    from Some m have "Some target \<in> set next_pages" by simp
    then have b: "emitted page next_pages (st1, hv) (?st2, True)"
      by (rule emitted_route)
    show ?thesis
      by (subst e, subst sv, rule emitted_trans [OF emitted_trans [OF a b] Cons.IH])
  qed
qed


lemma taggedI:
  assumes "d_webhooks st' = d_webhooks st" "d_routes st' = d_routes st @ new"
    "\<forall>r \<in> set new. r_webhook_action r = tag"
  shows "tagged tag (st, hv) (st', hv')"
  unfolding tagged_def fst_conv using assms by blast

lemma tagged_trans:
  assumes "tagged tag a b" and "tagged tag b c"
  shows "tagged tag a c"
proof -
  from assms(1) obtain new1 where 1: "d_webhooks (fst b) = d_webhooks (fst a)"
    "d_routes (fst b) = d_routes (fst a) @ new1" "\<forall>r \<in> set new1. r_webhook_action r = tag"
    unfolding tagged_def by blast
  from assms(2) obtain new2 where 2: "d_webhooks (fst c) = d_webhooks (fst b)"
    "d_routes (fst c) = d_routes (fst b) @ new2" "\<forall>r \<in> set new2. r_webhook_action r = tag"
    unfolding tagged_def by blast
  have r: "d_routes (fst c) = d_routes (fst a) @ (new1 @ new2)" using 1(2) 2(2) by simp
  have q: "\<forall>r \<in> set (new1 @ new2). r_webhook_action r = tag" using 1(3) 2(3) by auto
  have w: "d_webhooks (fst c) = d_webhooks (fst a)" using 1(1) 2(1) by simp
  show ?thesis unfolding tagged_def using w r q by blast
qed

lemma tagged_intents: "tagged tag (st, hv) (st\<lparr>d_intents := x\<rparr>, hv')"
  by (rule taggedI [where new = "[]"]) simp_all

lemma tagged_route:
  "tagged tag (st, hv)
     (st\<lparr>d_routes := d_routes st @ [new_route page name target tag ps],
        pages_with_routes := insert page (pages_with_routes st)\<rparr>, hv')"
  by (rule taggedI [where new = "[new_route page name target tag ps]"])
     (simp_all add: new_route_def)

lemma no_chip_route_tagged:
  "tagged webhook_tag (st, False)
     (no_chip_route lower page intent_name_raw user_example webhook_tag param_set next_pages
        row_idx st)"
proof -
  define name where "name = (if truthy intent_name_raw then the intent_name_raw
             else U ''Intent_'' @ slugify lower page @ U ''_'' @ py_str_nat row_idx)"
  define st1 where "st1 = st\<lparr>d_intents := AList.update name
      (add_example user_example (lookup_default name [] (d_intents st))) (d_intents st)\<rparr>"
  have a: "tagged webhook_tag (st, False) (st1, False)"
    unfolding st1_def by (rule tagged_intents)
  show ?thesis
  proof (cases "next_pages ! 0")
    case None
    then have "no_chip_route lower page intent_name_raw user_example webhook_tag param_set
        next_pages row_idx st = (st1, False)"
      by (simp add: no_chip_route_def Let_def st1_def name_def)
    with a show ?thesis by simp
  next
    case (Some target)
    then have e: "no_chip_route lower page intent_name_raw user_example webhook_tag param_set
        next_pages row_idx st
        = (st1\<lparr>d_routes := d_routes st1 @ [new_route page name target webhook_tag param_set],
               pages_with_routes := insert page (pages_with_routes st1)\<rparr>, True)"
      by (simp add: no_chip_route_def Let_def st1_def name_def)
    have "tagged webhook_tag (st1, False)
        (st1\<lparr>d_routes := d_routes st1 @ [new_route page name target webhook_tag param_set],
               pages_with_routes := insert page (pages_with_routes st1)\<rparr>, True)"
      by (rule tagged_route)
    with a e show ?thesis using tagged_trans by metis
  qed
qed

lemma chip_loop_tagged:
  "tagged webhook_tag sv
     (chip_loop lower page intent_name_raw user_example webhook_tag param_set next_pages i
        chips sv)"
proof (induction chips arbitrary: i sv)
  case Nil
  show ?case by (simp add: tagged_def)
next
  case (Cons chip rest)
  obtain st hv where sv: "sv = (st, hv)" by (cases sv)
  define name where "name = (if truthy intent_name_raw then the intent_name_raw
             else U ''Intent_'' @ slugify lower page) @ U '' :: '' @ chip"
  define st1 where "st1 = st\<lparr>d_intents := AList.update name
      (add_example user_example (append_new chip (lookup_default name [] (d_intents st))))
      (d_intents st)\<rparr>"
  define v where "v = (if i < length next_pages then next_pages ! i else next_pages ! 0)"
  have a: "tagged webhook_tag (st, hv) (st1, hv)"
    unfolding st1_def by (rule tagged_intents)
  show ?case
  proof (cases v)
    case None
    then have e: "chip_loop lower page intent_name_raw user_example webhook_tag param_set
        next_pages i (chip # rest) sv
        = chip_loop lower page intent_name_raw user_example webhook_tag param_set
            next_pages (Suc i) rest (st1, hv)"
      unfolding v_def by (simp add: Let_def sv st1_def name_def)
    show ?thesis
      by (subst e, subst sv, rule tagged_trans [OF a Cons.IH])
  next
    case (Some target)
    let ?st2 = "st1\<lparr>d_routes := d_routes st1 @ [new_route page name target webhook_tag param_set],
               pages_with_routes := insert page (pages_with_routes st1)\<rparr>"
    from Some have e: "chip_loop lower page intent_name_raw user_example webhook_tag param_set
        next_pages i (chip # rest) sv
        = chip_loop lower page intent_name_raw user_example webhook_tag param_set
            next_pages (Suc i) rest (?st2, True)"
      unfolding v_def by (simp add: Let_def sv st1_def name_def)
    have b: "tagged webhook_tag (st1, hv) (?st2, True)"
      by (rule tagged_route)
    show ?thesis
      by (subst e, subst sv, rule tagged_trans [OF tagged_trans [OF a b] Cons.IH])
  qed
qed

lemma process_row_skip:
  "sanitize (col_page_name (snd ir)) = None \<Longrightarrow> process_row lower hs hns ir st0 = st0"
  by (simp add: process_row_def)

lemma sanitize_nonempty: "sanitize c = Some s \<Longrightarrow> s \<noteq> []"
  by (cases c) (auto simp: sanitize_def sanitize_empty_def Let_def U_def split: if_splits)

lemma process_row_shape:
  assumes pg: "sanitize (col_page_name (snd ir)) = Some page"
  obtains st1 sv nps where
    "all_pages st1 = append_new page (all_pages st0)"
    "d_pages st1 = AList.update page
        (update_page (sanitize (col_bot_prompt (snd ir))) (parse_chips (col_suggested_chips (snd ir)))
           (step_entry hs (U ''step'') (col_step (snd ir))
              @ step_entry hns (U ''next_step'') (col_next_step (snd ir)))
           (lookup_default page \<lparr>pg_prompts = [], pg_chips = [], pg_metadata = []\<rparr> (d_pages st0)))
        (d_pages st0)"
    "d_routes st1 = d_routes st0" "pages_with_routes st1 = pages_with_routes st0"
    "d_end_pages st1 = d_end_pages st0"
    "d_first_page st1 = (if \<not> truthy (d_first_page st0) \<and> lower page \<notin> start_names
                          then Some page else d_first_page st0)"
    "emitted page nps (st1, False) sv"
    "process_row lower hs hns ir st0 =
       (if \<not> snd sv \<and> truthy (sanitize (col_bot_prompt (snd ir)))
        then (fst sv)\<lparr>d_end_pages := append_new page (d_end_pages (fst sv))\<rparr> else fst sv)"
    "sanitize (col_webhook_action (snd ir)) = None \<longrightarrow> d_webhooks st1 = d_webhooks st0"
    "tagged (if truthy (sanitize (col_webhook_action (snd ir)))
             then generate_webhook_tag lower (sanitize (col_webhook_action (snd ir))) else None)
       (st1, False) sv"
proof -
  have ne: "page \<noteq> []" using pg by (rule sanitize_nonempty)
  define row where "row = snd ir"
  define chips where "chips = parse_chips (col_suggested_chips row)"
  define bot_prompt where "bot_prompt = sanitize (col_bot_prompt row)"
  define raw where "raw = sanitize (col_webhook_action row)"
  define tag where "tag = (if truthy raw then generate_webhook_tag lower raw else None)"
  define parsed where "parsed = parse_next_pages (cell_of (sanitize (col_next_page row)))
                           (if chips \<noteq> [] then length chips else 1)"
  define sa where "sa = st0\<lparr>all_pages := append_new page (all_pages st0)\<rparr>"
  define sb where "sb = (if truthy tag
     then sa\<lparr>d_webhooks := AList.update (the tag) (the raw) (d_webhooks sa)\<rparr> else sa)"
  define sc where "sc = sb\<lparr>d_pages := AList.update page
        (update_page bot_prompt chips
           (step_entry hs (U ''step'') (col_step row)
              @ step_entry hns (U ''next_step'') (col_next_step row))
           (lookup_default page \<lparr>pg_prompts = [], pg_chips = [], pg_metadata = []\<rparr> (d_pages sb)))
        (d_pages sb)\<rparr>"
  define sd where "sd = (if \<not> truthy (d_first_page sc) \<and> lower page \<notin> start_names
                      then sc\<lparr>d_first_page := Some page\<rparr> else sc)"
  define st1 where "st1 = sd\<lparr>d_warnings := d_warnings sd @ snd parsed\<rparr>"
  define sv where "sv = (if chips = []
      then no_chip_route lower page (sanitize (col_intent_name row))
             (snd (parse_trigger_and_example (sanitize (col_trigger row)))) tag
             (parse_params (sanitize (col_parameter_set row))) (fst parsed) (fst ir) st1
      else chip_loop lower page (sanitize (col_intent_name row))
             (snd (parse_trigger_and_example (sanitize (col_trigger row)))) tag
             (parse_params (sanitize (col_parameter_set row))) (fst parsed) 0 chips (st1, False))"
  have nps: "fst parsed \<noteq> []"
  proof -
    have "length (fst parsed) = (if chips \<noteq> [] then length chips else 1)"
      unfolding parsed_def by (rule length_parse_next_pages)
    then show ?thesis by (cases "chips = []") auto
  qed
  have em: "emitted page (fst parsed) (st1, False) sv"
    unfolding sv_def using no_chip_route_emitted [OF nps] chip_loop_emitted [OF nps] by simp
  have sb_pages: "d_pages sb = d_pages st0" by (simp add: sb_def sa_def)
  have 1: "all_pages st1 = append_new page (all_pages st0)"
    by (simp add: st1_def sd_def sc_def sb_def sa_def)
  have 2: "d_pages st1 = AList.update page
        (update_page bot_prompt chips
           (step_entry hs (U ''step'') (col_step row)
              @ step_entry hns (U ''next_step'') (col_next_step row))
           (lookup_default page \<lparr>pg_prompts = [], pg_chips = [], pg_metadata = []\<rparr> (d_pages st0)))
        (d_pages st0)"
    by (simp add: st1_def sd_def sc_def sb_pages)
  have 3: "d_routes st1 = d_routes st0" "pages_with_routes st1 = pages_with_routes st0"
    "d_end_pages st1 = d_end_pages st0"
    by (simp_all add: st1_def sd_def sc_def sb_def sa_def)
  have 4: "d_first_page st1 = (if \<not> truthy (d_first_page st0) \<and> lower page \<notin> start_names
                          then Some page else d_first_page st0)"
    by (simp add: st1_def sd_def sc_def sb_def sa_def)
  have 5: "process_row lower hs hns ir st0 =
       (if \<not> snd sv \<and> truthy bot_prompt
        then (fst sv)\<lparr>d_end_pages := append_new page (d_end_pages (fst sv))\<rparr> else fst sv)"
    unfolding process_row_def Let_def pg
    unfolding sv_def st1_def sd_def sc_def sb_def sa_def parsed_def tag_def raw_def
      bot_prompt_def chips_def row_def
    using ne by simp
  have 6: "raw = None \<longrightarrow> d_webhooks st1 = d_webhooks st0"
    by (simp add: st1_def sd_def sc_def sb_def sa_def tag_def truthy_def)
  have 7: "tagged tag (st1, False) sv"
    unfolding sv_def using no_chip_route_tagged chip_loop_tagged by simp
  show ?thesis
    using that [OF 1 2 [unfolded bot_prompt_def chips_def row_def] 3 4 em
        5 [unfolded bot_prompt_def row_def] 6 [unfolded raw_def row_def]
        7 [unfolded tag_def raw_def row_def]] .
qed


lemma keys_update: "fst ` set (AList.update k v al) = insert k (fst ` set al)"
  by (simp add: dom_update)

lemma set_append_new: "set (append_new x xs) = insert x (set xs)"
  by (auto simp: append_new_def)

lemma prompts_update_page:
  "pg_prompts (update_page bp chips si pg0) \<noteq> [] \<Longrightarrow> truthy bp \<or> pg_prompts pg0 \<noteq> []"
  by (auto simp: update_page_def Let_def truthy_def split: option.splits if_splits)

lemma prompts_lookup_default:
  "pg_prompts (lookup_default p \<lparr>pg_prompts = [], pg_chips = [], pg_metadata = []\<rparr> al) \<noteq> [] \<Longrightarrow>
     \<exists>pg. map_of al p = Some pg \<and> pg_prompts pg \<noteq> []"
  by (auto simp: lookup_default_def split: option.splits)

lemma process_row_inv:
  assumes inv: "compile_inv st0"
  shows "compile_inv (process_row lower hs hns ir st0)"
proof (cases "sanitize (col_page_name (snd ir))")
  case None
  then show ?thesis using inv by (simp add: process_row_skip)
next
  case (Some page)
  let ?bp = "sanitize (col_bot_prompt (snd ir))"
  define pg' where "pg' = update_page ?bp (parse_chips (col_suggested_chips (snd ir)))
           (step_entry hs (U ''step'') (col_step (snd ir))
              @ step_entry hns (U ''next_step'') (col_next_step (snd ir)))
           (lookup_default page \<lparr>pg_prompts = [], pg_chips = [], pg_metadata = []\<rparr> (d_pages st0))"
  obtain st1 sv nps where
    ap: "all_pages st1 = append_new page (all_pages st0)" and
    dp: "d_pages st1 = AList.update page pg' (d_pages st0)" and
    dr: "d_routes st1 = d_routes st0" and pw: "pages_with_routes st1 = pages_with_routes st0" and
    ep: "d_end_pages st1 = d_end_pages st0" and
    fp: "d_first_page st1 = (if \<not> truthy (d_first_page st0) \<and> lower page \<notin> start_names
                          then Some page else d_first_page st0)" and
    em: "emitted page nps (st1, False) sv" and
    res: "process_row lower hs hns ir st0 =
       (if \<not> snd sv \<and> truthy ?bp
        then (fst sv)\<lparr>d_end_pages := append_new page (d_end_pages (fst sv))\<rparr> else fst sv)"
    unfolding pg'_def by (rule process_row_shape [OF Some, of st0 hs hns lower]) blast
  let ?st' = "process_row lower hs hns ir st0"
  from em obtain new where
    e1: "d_pages (fst sv) = d_pages st1" "all_pages (fst sv) = all_pages st1"
      "d_end_pages (fst sv) = d_end_pages st1" and
    e2: "d_routes (fst sv) = d_routes st1 @ new" and
    e3: "\<forall>r \<in> set new. r_page r = page \<and> r_next_page r \<noteq> None \<and> r_next_page r \<in> set nps" and
    e4: "pages_with_routes (fst sv) = pages_with_routes st1 \<union> r_page ` set new" and
    e5: "snd sv = (new \<noteq> [])"
    unfolding emitted_def fst_conv snd_conv by auto
  have P: "d_pages ?st' = AList.update page pg' (d_pages st0)"
    by (simp add: res e1 dp)
  have K: "fst ` set (d_pages ?st') = insert page (fst ` set (d_pages st0))"
    by (simp add: P keys_update)
  have R: "d_routes ?st' = d_routes st0 @ new" by (simp add: res e2 dr)
  have W: "pages_with_routes ?st' = pages_with_routes st0 \<union> r_page ` set new"
    by (simp add: res e4 pw)
  have A: "set (all_pages ?st') = insert page (set (all_pages st0))"
    by (simp add: res e1 ap set_append_new)
  have E: "set (d_end_pages ?st') = (if new = [] \<and> truthy ?bp then insert page (set (d_end_pages st0))
      else set (d_end_pages st0))"
    by (simp add: res e1 e5 ep set_append_new)
  from inv have i1: "\<forall>r \<in> set (d_routes st0). r_page r \<in> fst ` set (d_pages st0) \<and> r_next_page r \<noteq> None"
    and i2: "pages_with_routes st0 = r_page ` set (d_routes st0)"
    and i3: "set (all_pages st0) = fst ` set (d_pages st0)"
    and i4: "\<And>p pg. map_of (d_pages st0) p = Some pg \<Longrightarrow> pg_prompts pg \<noteq> [] \<Longrightarrow>
        p \<notin> pages_with_routes st0 \<Longrightarrow> p \<in> set (d_end_pages st0)"
    unfolding compile_inv_def by blast+
  have c1: "\<forall>r \<in> set (d_routes ?st'). r_page r \<in> fst ` set (d_pages ?st') \<and> r_next_page r \<noteq> None"
    unfolding R K using i1 e3 by auto
  have c2: "pages_with_routes ?st' = r_page ` set (d_routes ?st')"
    unfolding R W using i2 by auto
  have c3: "set (all_pages ?st') = fst ` set (d_pages ?st')"
    unfolding A K using i3 by simp
  have c4: "p \<in> set (d_end_pages ?st')"
    if m: "map_of (d_pages ?st') p = Some pg" and pr: "pg_prompts pg \<noteq> []"
      and nw: "p \<notin> pages_with_routes ?st'" for p pg
  proof (cases "p = page")
    case False
    with m have "map_of (d_pages st0) p = Some pg" by (simp add: P update_conv')
    moreover from nw have "p \<notin> pages_with_routes st0" by (simp add: W)
    ultimately have "p \<in> set (d_end_pages st0)" using pr i4 by blast
    then show ?thesis by (simp add: E)
  next
    case True
    with m have pgeq: "pg = pg'" by (simp add: P update_conv')
    from nw True have nw0: "page \<notin> pages_with_routes st0" and ni: "page \<notin> r_page ` set new"
      by (simp_all add: W)
    have n: "new = []"
    proof (cases new)
      case Nil
      then show ?thesis .
    next
      case (Cons r rs)
      then have "r_page r = page" using e3 by simp
      moreover have "r_page r \<in> r_page ` set new" using Cons by simp
      ultimately show ?thesis using ni by simp
    qed
    show ?thesis
    proof (cases "truthy ?bp")
      case True
      then show ?thesis using n \<open>p = page\<close> by (simp add: E)
    next
      case False
      from pr have "pg_prompts pg' \<noteq> []" unfolding pgeq .
      then have "truthy ?bp \<or> pg_prompts (lookup_default page
          \<lparr>pg_prompts = [], pg_chips = [], pg_metadata = []\<rparr> (d_pages st0)) \<noteq> []"
        unfolding pg'_def by (rule prompts_update_page)
      with False have "pg_prompts (lookup_default page
          \<lparr>pg_prompts = [], pg_chips = [], pg_metadata = []\<rparr> (d_pages st0)) \<noteq> []"
        by simp
      then have "\<exists>pg. map_of (d_pages st0) page = Some pg \<and> pg_prompts pg \<noteq> []"
        by (rule prompts_lookup_default)
      then obtain pg0 where "map_of (d_pages st0) page = Some pg0" "pg_prompts pg0 \<noteq> []"
        by (elim exE conjE)
      then have "page \<in> set (d_end_pages st0)" using nw0 i4 by blast
      then show ?thesis using \<open>p = page\<close> by (simp add: E)
    qed
  qed
  have c4': "\<forall>p pg. map_of (d_pages ?st') p = Some pg \<and> pg_prompts pg \<noteq> []
      \<and> p \<notin> pages_with_routes ?st' \<longrightarrow> p \<in> set (d_end_pages ?st')"
    using c4 by blast
  show ?thesis unfolding compile_inv_def
    by (rule conjI [OF c1 conjI [OF c2 conjI [OF c3 c4']]])
qed

lemma fold_process_row_inv:
  "compile_inv st \<Longrightarrow> compile_inv (fold (process_row lower hs hns) irs st)"
  by (induction irs arbitrary: st) (simp_all add: process_row_inv)

lemma compile_inv_empty: "compile_inv (empty_data hs hns)"
  by (simp add: compile_inv_def empty_data_def)


lemma infer_fold:
  "d_routes (fold (\<lambda>page s. if C page then s\<lparr>d_end_pages := append_new page (d_end_pages s)\<rparr> else s) ps s)
      = d_routes s
   \<and> d_pages (fold (\<lambda>page s. if C page then s\<lparr>d_end_pages := append_new page (d_end_pages s)\<rparr> else s) ps s)
      = d_pages s
   \<and> d_first_page (fold (\<lambda>page s. if C page then s\<lparr>d_end_pages := append_new page (d_end_pages s)\<rparr> else s) ps s)
      = d_first_page s
   \<and> set (d_end_pages (fold (\<lambda>page s. if C page then s\<lparr>d_end_pages := append_new page (d_end_pages s)\<rparr> else s) ps s))
      = set (d_end_pages s) \<union> {p \<in> set ps. C p}"
  by (induction ps arbitrary: s) (auto simp: set_append_new)

lemma infer_end_pages_frame:
  "d_routes (infer_end_pages st) = d_routes st \<and> d_pages (infer_end_pages st) = d_pages st
   \<and> d_first_page (infer_end_pages st) = d_first_page st"
  unfolding infer_end_pages_def
  using infer_fold [of "\<lambda>page. page \<notin> referenced_pages (d_routes st)
      \<and> Some page \<noteq> d_first_page st \<and> page \<notin> pages_with_routes st" "all_pages st" st]
  by simp

lemma infer_end_pages_set:
  "set (d_end_pages (infer_end_pages st)) = set (d_end_pages st)
     \<union> {p \<in> set (all_pages st). p \<notin> referenced_pages (d_routes st) \<and> Some p \<noteq> d_first_page st
            \<and> p \<notin> pages_with_routes st}"
  unfolding infer_end_pages_def
  using infer_fold [of "\<lambda>page. page \<notin> referenced_pages (d_routes st)
      \<and> Some page \<noteq> d_first_page st \<and> page \<notin> pages_with_routes st" "all_pages st" st]
  by simp

lemma referenced_pages_targets:
  "p \<in> referenced_pages rs \<Longrightarrow> \<exists>r \<in> set rs. r_next_page r = Some p"
  by (auto simp: referenced_pages_def split: option.splits if_splits)


lemmas eval_defs = convert_single_csv_def example_row_def empty_data_def
  process_row_def sanitize_def sanitize_empty_def lit_defs parse_params_def parse_chips_def
  step_entry_def parse_trigger_and_example_def truthy_def generate_webhook_tag_def
  lookup_default_def update_page_def start_names_def ascii_lower_def parse_next_pages_def
  cell_of_def py_str_def next_empty_def startswith_def no_chip_route_def add_example_def
  new_route_def append_new_def infer_end_pages_def referenced_pages_def Let_def

lemma convert_inv:
  "compile_inv (fold (process_row lower hs hns) (enumerate 0 rows) (empty_data hs hns))"
  by (rule fold_process_row_inv [OF compile_inv_empty])

text \<open>
  C2, as the spec words it, fails: a row registers its own page only, never the page
  it leads to. A table of the single row "page A, next page B" compiles to a route to
  B while the pages table holds A alone.
\<close>

theorem route_target_not_registered:
  "map r_next_page (d_routes (convert_single_csv ascii_lower False False table_dangling))
      = [Some (U ''B'')]
   \<and> map fst (d_pages (convert_single_csv ascii_lower False False table_dangling)) = [U ''A'']"
  by (simp add: eval_defs table_dangling_def)

text \<open>
  C2, amended: in every graph \<open>convert_single_csv\<close> produces, every route has a next
  page that is present and leaves a page that is a key of the pages table. The next
  page itself need not be a key of the pages table.
\<close>

theorem routes_leave_registered_pages:
  "\<forall>r \<in> set (d_routes (convert_single_csv lower hs hns rows)).
     r_page r \<in> fst ` set (d_pages (convert_single_csv lower hs hns rows))
     \<and> r_next_page r \<noteq> None"
proof -
  let ?st = "fold (process_row lower hs hns) (enumerate 0 rows) (empty_data hs hns)"
  have "\<forall>r \<in> set (d_routes ?st). r_page r \<in> fst ` set (d_pages ?st) \<and> r_next_page r \<noteq> None"
    using convert_inv [of lower hs hns rows] unfolding compile_inv_def by blast
  then show ?thesis
    by (simp add: convert_single_csv_def infer_end_pages_frame)
qed

theorem routes_leave_registered_pages_witness:
  "map r_page (d_routes (convert_single_csv ascii_lower False False table_dangling)) = [U ''A'']
   \<and> U ''A'' \<in> fst ` set (d_pages (convert_single_csv ascii_lower False False table_dangling))
   \<and> r_next_page (hd (d_routes (convert_single_csv ascii_lower False False table_dangling)))
       \<noteq> None"
proof -
  let ?g = "convert_single_csv ascii_lower False False table_dangling"
  have r: "map r_page (d_routes ?g) = [U ''A'']"
    by (simp add: eval_defs table_dangling_def)
  then have "hd (d_routes ?g) \<in> set (d_routes ?g)" by (cases "d_routes ?g") auto
  with routes_leave_registered_pages [of ascii_lower False False table_dangling]
  have h: "r_page (hd (d_routes ?g)) \<in> fst ` set (d_pages ?g)
      \<and> r_next_page (hd (d_routes ?g)) \<noteq> None"
    by blast
  from r have "r_page (hd (d_routes ?g)) = U ''A''" by (cases "d_routes ?g") auto
  with h r show ?thesis by simp
qed

text \<open>
  C3, as the spec words it, fails twice. In the table "A to B; C to B" the page C is
  never a target and is not the first page, but it has a route, and it is not in
  \<open>end_pages\<close>: the inference pass skips every page with an outgoing route. In the
  table "A to B; B with no prompt and no next page" the page B is a route target
  whose own row has no valid route, and it is not in \<open>end_pages\<close> either.
\<close>

theorem unreferenced_page_with_routes_not_end:
  "map fst (d_pages (convert_single_csv ascii_lower False False table_two_sources))
     = [U ''A'', U ''C'']
   \<and> map (\<lambda>r. (r_page r, r_next_page r))
        (d_routes (convert_single_csv ascii_lower False False table_two_sources))
     = [(U ''A'', Some (U ''B'')), (U ''C'', Some (U ''B''))]
   \<and> d_first_page (convert_single_csv ascii_lower False False table_two_sources) = Some (U ''A'')
   \<and> d_end_pages (convert_single_csv ascii_lower False False table_two_sources) = []
   \<and> map fst (d_pages (convert_single_csv ascii_lower False False table_silent_target))
     = [U ''A'', U ''B'']
   \<and> map (\<lambda>r. (r_page r, r_next_page r))
        (d_routes (convert_single_csv ascii_lower False False table_silent_target))
     = [(U ''A'', Some (U ''B''))]
   \<and> d_end_pages (convert_single_csv ascii_lower False False table_silent_target) = []"
  by (simp add: eval_defs table_two_sources_def table_silent_target_def)

text \<open>
  C3, amended: after compilation, every page with no outgoing route and a non-empty
  list of prompts is in \<open>end_pages\<close>; and every page of the pages table that is the
  target of no route, is not the first page and has no outgoing route is in
  \<open>end_pages\<close>.
\<close>

theorem end_pages_complete:
  "(map_of (d_pages (convert_single_csv lower hs hns rows)) p = Some pg \<and> pg_prompts pg \<noteq> []
      \<and> (\<forall>r \<in> set (d_routes (convert_single_csv lower hs hns rows)). r_page r \<noteq> p)
     \<longrightarrow> p \<in> set (d_end_pages (convert_single_csv lower hs hns rows)))
   \<and> (p \<in> fst ` set (d_pages (convert_single_csv lower hs hns rows))
      \<and> (\<forall>r \<in> set (d_routes (convert_single_csv lower hs hns rows)). r_next_page r \<noteq> Some p)
      \<and> d_first_page (convert_single_csv lower hs hns rows) \<noteq> Some p
      \<and> (\<forall>r \<in> set (d_routes (convert_single_csv lower hs hns rows)). r_page r \<noteq> p)
     \<longrightarrow> p \<in> set (d_end_pages (convert_single_csv lower hs hns rows)))"
proof -
  let ?st = "fold (process_row lower hs hns) (enumerate 0 rows) (empty_data hs hns)"
  let ?g = "convert_single_csv lower hs hns rows"
  have g: "?g = infer_end_pages ?st" by (simp add: convert_single_csv_def)
  have fr: "d_routes ?g = d_routes ?st" "d_pages ?g = d_pages ?st"
    "d_first_page ?g = d_first_page ?st"
    unfolding g using infer_end_pages_frame [of ?st] by blast+
  have ep: "set (d_end_pages ?g) = set (d_end_pages ?st)
     \<union> {p \<in> set (all_pages ?st). p \<notin> referenced_pages (d_routes ?st) \<and> Some p \<noteq> d_first_page ?st
            \<and> p \<notin> pages_with_routes ?st}"
    unfolding g by (rule infer_end_pages_set)
  have inv: "compile_inv ?st" by (rule convert_inv)
  then have i2: "pages_with_routes ?st = r_page ` set (d_routes ?st)"
    and i3: "set (all_pages ?st) = fst ` set (d_pages ?st)"
    and i4: "\<And>p pg. map_of (d_pages ?st) p = Some pg \<Longrightarrow> pg_prompts pg \<noteq> [] \<Longrightarrow>
        p \<notin> pages_with_routes ?st \<Longrightarrow> p \<in> set (d_end_pages ?st)"
    unfolding compile_inv_def by blast+
  have a: "p \<in> set (d_end_pages ?g)"
    if "map_of (d_pages ?g) p = Some pg" "pg_prompts pg \<noteq> []"
      "\<forall>r \<in> set (d_routes ?g). r_page r \<noteq> p"
  proof -
    from that(3) have "p \<notin> pages_with_routes ?st" unfolding i2 fr by auto
    with that(1,2) have "p \<in> set (d_end_pages ?st)" using i4 unfolding fr by blast
    then show ?thesis unfolding ep by simp
  qed
  have b: "p \<in> set (d_end_pages ?g)"
    if "p \<in> fst ` set (d_pages ?g)" "\<forall>r \<in> set (d_routes ?g). r_next_page r \<noteq> Some p"
      "d_first_page ?g \<noteq> Some p" "\<forall>r \<in> set (d_routes ?g). r_page r \<noteq> p"
  proof -
    from that(1) have 1: "p \<in> set (all_pages ?st)" unfolding i3 fr .
    from that(2) have 2: "p \<notin> referenced_pages (d_routes ?st)"
      unfolding fr using referenced_pages_targets by blast
    from that(3) have 3: "Some p \<noteq> d_first_page ?st" unfolding fr by auto
    from that(4) have 4: "p \<notin> pages_with_routes ?st" unfolding i2 fr by auto
    from 1 2 3 4 show ?thesis unfolding ep by simp
  qed
  from a b show ?thesis by blast
qed


theorem end_pages_complete_witness:
  "U ''B'' \<in> set (d_end_pages (convert_single_csv ascii_lower False False table_end_states))
   \<and> U ''D'' \<in> set (d_end_pages (convert_single_csv ascii_lower False False table_end_states))
   \<and> map_of (d_pages (convert_single_csv ascii_lower False False table_end_states)) (U ''B'')
       = Some \<lparr>pg_prompts = [U ''bye''], pg_chips = [], pg_metadata = []\<rparr>
   \<and> map (\<lambda>r. (r_page r, r_next_page r))
        (d_routes (convert_single_csv ascii_lower False False table_end_states))
       = [(U ''A'', Some (U ''B''))]
   \<and> d_first_page (convert_single_csv ascii_lower False False table_end_states) = Some (U ''A'')"
proof -
  let ?g = "convert_single_csv ascii_lower False False table_end_states"
  let ?pg = "\<lparr>pg_prompts = [U ''bye''], pg_chips = [], pg_metadata = []\<rparr>"
  have pages: "d_pages ?g = [(U ''A'', \<lparr>pg_prompts = [U ''hi''], pg_chips = [], pg_metadata = []\<rparr>),
      (U ''B'', ?pg), (U ''D'', \<lparr>pg_prompts = [], pg_chips = [], pg_metadata = []\<rparr>)]"
    by (simp add: eval_defs table_end_states_def)
  have routes: "map (\<lambda>r. (r_page r, r_next_page r)) (d_routes ?g) = [(U ''A'', Some (U ''B''))]"
    by (simp add: eval_defs table_end_states_def)
  have first: "d_first_page ?g = Some (U ''A'')"
    by (simp add: eval_defs table_end_states_def)
  have ne: "U ''A'' \<noteq> U ''B''" "U ''A'' \<noteq> U ''D''" "U ''B'' \<noteq> U ''D''"
    by (simp_all add: U_def)
  from routes obtain r where r: "d_routes ?g = [r]" "r_page r = U ''A''"
    "r_next_page r = Some (U ''B'')"
    by (cases "d_routes ?g") auto
  have mB: "map_of (d_pages ?g) (U ''B'') = Some ?pg" using ne by (simp add: pages)
  have hB: "map_of (d_pages ?g) (U ''B'') = Some ?pg \<and> pg_prompts ?pg \<noteq> []
      \<and> (\<forall>r \<in> set (d_routes ?g). r_page r \<noteq> U ''B'')"
    using mB r ne by (simp add: U_def)
  have hD: "U ''D'' \<in> fst ` set (d_pages ?g)
      \<and> (\<forall>r \<in> set (d_routes ?g). r_next_page r \<noteq> Some (U ''D''))
      \<and> d_first_page ?g \<noteq> Some (U ''D'')
      \<and> (\<forall>r \<in> set (d_routes ?g). r_page r \<noteq> U ''D'')"
    using r ne by (simp add: pages first)
  from end_pages_complete [of ascii_lower False False table_end_states "U ''B''" ?pg] hB
  have B: "U ''B'' \<in> set (d_end_pages ?g)" by blast
  from end_pages_complete [of ascii_lower False False table_end_states "U ''D''"] hD
  have D: "U ''D'' \<in> set (d_end_pages ?g)" by blast
  from B D mB routes first show ?thesis by blast
qed

section \<open>Properties of the tag generator\<close>

lemma re_sub_runs_keep: "\<not> P d \<Longrightarrow> re_sub_runs P (d # cs) = d # re_sub_runs P cs"
  by (cases cs) simp_all

lemma set_re_sub_runs: "set (re_sub_runs P s) \<subseteq> insert 95 (set s)"
  by (induction P s rule: re_sub_runs.induct) auto

lemma no_adjacent_after_sub: "\<not> adjacent_underscores (re_sub_runs (\<lambda>c. c = 95) s)"
proof (induction "\<lambda>c::nat. c = 95" s rule: re_sub_runs.induct)
  case 1
  show ?case by simp
next
  case (2 c)
  show ?case by simp
next
  case (3 c d cs)
  show ?case
  proof (cases "c = 95")
    case c: True
    show ?thesis
    proof (cases "d = 95")
      case True
      with c 3 show ?thesis by simp
    next
      case False
      then have k: "re_sub_runs (\<lambda>c. c = 95) (d # cs) = d # re_sub_runs (\<lambda>c. c = 95) cs"
        by (simp add: re_sub_runs_keep)
      have "\<not> adjacent_underscores (re_sub_runs (\<lambda>c. c = 95) (d # cs))"
        using 3 c False by simp
      then show ?thesis using c False by (simp add: k)
    qed
  next
    case False
    have i: "\<not> adjacent_underscores (re_sub_runs (\<lambda>c. c = 95) (d # cs))"
      using 3 False by simp
    have "re_sub_runs (\<lambda>c. c = 95) (c # d # cs) = c # re_sub_runs (\<lambda>c. c = 95) (d # cs)"
      using False by simp
    moreover have "\<not> adjacent_underscores (c # xs)" if "\<not> adjacent_underscores xs" for xs
      using that False by (cases xs) simp_all
    ultimately show ?thesis using i by simp
  qed
qed

lemma adjacent_append_left: "adjacent_underscores ys \<Longrightarrow> adjacent_underscores (xs @ ys)"
proof (induction xs)
  case Nil
  then show ?case by simp
next
  case (Cons x xs)
  then have "adjacent_underscores (xs @ ys)" by simp
  then show ?case by (cases "xs @ ys") simp_all
qed

lemma adjacent_append_right: "adjacent_underscores xs \<Longrightarrow> adjacent_underscores (xs @ ys)"
  by (induction xs rule: adjacent_underscores.induct) auto

lemma strip_chars_ends:
  "py_strip_chars P s \<noteq> [] \<Longrightarrow> \<not> P (hd (py_strip_chars P s)) \<and> \<not> P (last (py_strip_chars P s))"
proof -
  assume ne: "py_strip_chars P s \<noteq> []"
  let ?d = "dropWhile P s"
  let ?x = "dropWhile P (rev ?d)"
  from ne have x: "?x \<noteq> []" by (simp add: py_strip_chars_def)
  have d: "?d \<noteq> []"
  proof
    assume "?d = []"
    with x show False by simp
  qed
  have "hd (py_strip_chars P s) = hd ?d" using ne hd_rstrip [of P ?d] by (simp add: py_strip_chars_def)
  moreover have "\<not> P (hd ?d)" using d by (simp add: hd_dropWhile)
  moreover have "last (py_strip_chars P s) = hd ?x" using x by (simp add: py_strip_chars_def last_rev)
  moreover have "\<not> P (hd ?x)" using x hd_dropWhile by blast
  ultimately show ?thesis by simp
qed

lemma strip_chars_middle:
  "\<exists>pre post. s = pre @ py_strip_chars P s @ post"
proof -
  let ?d = "dropWhile P s"
  have "s = takeWhile P s @ ?d" by simp
  moreover have "?d = py_strip_chars P s @ rev (takeWhile P (rev ?d))"
    using rstrip_prefix [of P ?d] by (simp add: py_strip_chars_def)
  ultimately show ?thesis by metis
qed

lemma strip_chars_no_adjacent:
  "\<not> adjacent_underscores s \<Longrightarrow> \<not> adjacent_underscores (py_strip_chars P s)"
proof
  assume n: "\<not> adjacent_underscores s" and a: "adjacent_underscores (py_strip_chars P s)"
  obtain pre post where s: "s = pre @ py_strip_chars P s @ post"
    using strip_chars_middle by blast
  from a have "adjacent_underscores (py_strip_chars P s @ post)" by (rule adjacent_append_right)
  then have "adjacent_underscores (pre @ py_strip_chars P s @ post)" by (rule adjacent_append_left)
  with s n show False by simp
qed

lemma set_strip_chars: "set (py_strip_chars P s) \<subseteq> set s"
proof -
  obtain pre post where s: "s = pre @ py_strip_chars P s @ post"
    using strip_chars_middle by blast
  have "set (py_strip_chars P s) \<subseteq> set (pre @ py_strip_chars P s @ post)" by auto
  with s show ?thesis by simp
qed


lemma process_row_tag:
  "(sanitize (col_webhook_action (snd ir)) = None \<longrightarrow>
      d_webhooks (process_row lower hs hns ir st0) = d_webhooks st0)
   \<and> (\<exists>new. d_routes (process_row lower hs hns ir st0) = d_routes st0 @ new
         \<and> (\<forall>r \<in> set new. r_webhook_action r =
               (if truthy (sanitize (col_webhook_action (snd ir)))
                then generate_webhook_tag lower (sanitize (col_webhook_action (snd ir)))
                else None)))"
proof (cases "sanitize (col_page_name (snd ir))")
  case None
  then have "process_row lower hs hns ir st0 = st0" by (rule process_row_skip)
  then show ?thesis by simp
next
  case (Some page)
  let ?tag = "if truthy (sanitize (col_webhook_action (snd ir)))
                then generate_webhook_tag lower (sanitize (col_webhook_action (snd ir)))
                else None"
  obtain st1 sv nps where
    "all_pages st1 = append_new page (all_pages st0)"
    "d_pages st1 = AList.update page
        (update_page (sanitize (col_bot_prompt (snd ir))) (parse_chips (col_suggested_chips (snd ir)))
           (step_entry hs (U ''step'') (col_step (snd ir))
              @ step_entry hns (U ''next_step'') (col_next_step (snd ir)))
           (lookup_default page \<lparr>pg_prompts = [], pg_chips = [], pg_metadata = []\<rparr> (d_pages st0)))
        (d_pages st0)" and
    dr: "d_routes st1 = d_routes st0" and "pages_with_routes st1 = pages_with_routes st0" and
    "d_end_pages st1 = d_end_pages st0" and
    "d_first_page st1 = (if \<not> truthy (d_first_page st0) \<and> lower page \<notin> start_names
                          then Some page else d_first_page st0)" and
    "emitted page nps (st1, False) sv" and
    res: "process_row lower hs hns ir st0 =
       (if \<not> snd sv \<and> truthy (sanitize (col_bot_prompt (snd ir)))
        then (fst sv)\<lparr>d_end_pages := append_new page (d_end_pages (fst sv))\<rparr> else fst sv)" and
    wh: "sanitize (col_webhook_action (snd ir)) = None \<longrightarrow> d_webhooks st1 = d_webhooks st0" and
    tg: "tagged ?tag (st1, False) sv"
    by (rule process_row_shape [OF Some, of st0 hs hns lower])
  from tg obtain new where w: "d_webhooks (fst sv) = d_webhooks st1"
    and r: "d_routes (fst sv) = d_routes st1 @ new"
    and t: "\<forall>r \<in> set new. r_webhook_action r = ?tag"
    unfolding tagged_def fst_conv by blast
  have W: "d_webhooks (process_row lower hs hns ir st0) = d_webhooks st1"
    by (simp add: res w)
  have R: "d_routes (process_row lower hs hns ir st0) = d_routes st0 @ new"
    by (simp add: res r dr)
  from W wh R t show ?thesis by auto
qed

lemma generated_tag_shape:
  assumes "generate_webhook_tag lower x = Some t"
  shows "(\<forall>c \<in> set t. ident_char c) \<and> \<not> adjacent_underscores t
     \<and> (t \<noteq> [] \<longrightarrow> hd t \<noteq> 95 \<and> last t \<noteq> 95)"
proof -
  from assms obtain a where x: "x = Some a" and a: "a \<noteq> []"
    by (cases x) (auto simp: generate_webhook_tag_def split: if_splits)
  define j where "j = re_sub_non_ident (py_join (U ''_'')
      (take 4 (filter (\<lambda>w. w \<notin> stopwords) (py_words (lower a)))))"
  define q where "q = re_sub_runs (\<lambda>c. c = 95) j"
  have t: "t = py_strip_chars (\<lambda>c. c = 95) q"
    using assms a unfolding x by (simp add: generate_webhook_tag_def Let_def q_def j_def)
  have "\<forall>c \<in> set j. ident_char c" by (simp add: j_def re_sub_non_ident_def)
  moreover have "ident_char 95" by (simp add: ident_char_def)
  ultimately have "\<forall>c \<in> set q. ident_char c"
    unfolding q_def using set_re_sub_runs [of "\<lambda>c. c = 95" j] by auto
  then have 1: "\<forall>c \<in> set t. ident_char c" unfolding t using set_strip_chars by blast
  have "\<not> adjacent_underscores q" unfolding q_def by (rule no_adjacent_after_sub)
  then have 2: "\<not> adjacent_underscores t" unfolding t by (rule strip_chars_no_adjacent)
  have 3: "t \<noteq> [] \<longrightarrow> hd t \<noteq> 95 \<and> last t \<noteq> 95"
    unfolding t using strip_chars_ends [of "\<lambda>c. c = 95" q] by blast
  from 1 2 3 show ?thesis by blast
qed

text \<open>
  C9: \<open>generate_webhook_tag\<close> is a function of the action text alone (and of the
  lower-casing of the runtime): an absent or empty text gives no tag; any other text
  gives the lower-cased text without its stop words, cut to the first four words,
  joined with underscores, without the characters outside \<open>[a-z0-9_]\<close>, with runs of
  underscores collapsed and the underscores at both ends removed, so that the tag has
  only characters of \<open>[a-z0-9_]\<close>, no two underscores side by side and no underscore
  at either end. In the compiler, a row whose webhook cell is absent leaves the table
  of webhooks alone, and every route a row emits carries the tag of that row's action
  text, whatever the row's position and the rows before it.
\<close>

theorem generate_webhook_tag_contract:
  "generate_webhook_tag lower None = None \<and> generate_webhook_tag lower (Some []) = None
   \<and> (a \<noteq> [] \<longrightarrow>
        generate_webhook_tag lower (Some a) =
          Some (py_strip_chars (\<lambda>c. c = 95)
                 (re_sub_runs (\<lambda>c. c = 95)
                    (filter ident_char
                       (py_join (U ''_'')
                          (take 4 (filter (\<lambda>w. w \<notin> stopwords) (py_words (lower a)))))))))
   \<and> (\<forall>t. generate_webhook_tag lower x = Some t \<longrightarrow>
          (\<forall>c \<in> set t. ident_char c) \<and> \<not> adjacent_underscores t
          \<and> (t \<noteq> [] \<longrightarrow> hd t \<noteq> 95 \<and> last t \<noteq> 95))
   \<and> (sanitize (col_webhook_action (snd ir)) = None \<longrightarrow>
        d_webhooks (process_row lower hs hns ir st) = d_webhooks st)
   \<and> (\<exists>new. d_routes (process_row lower hs hns ir st) = d_routes st @ new
         \<and> (\<forall>r \<in> set new. r_webhook_action r =
               (if truthy (sanitize (col_webhook_action (snd ir)))
                then generate_webhook_tag lower (sanitize (col_webhook_action (snd ir)))
                else None)))"
proof -
  have 1: "generate_webhook_tag lower None = None \<and> generate_webhook_tag lower (Some []) = None"
    by (simp add: generate_webhook_tag_def)
  have 2: "a \<noteq> [] \<longrightarrow>
        generate_webhook_tag lower (Some a) =
          Some (py_strip_chars (\<lambda>c. c = 95)
                 (re_sub_runs (\<lambda>c. c = 95)
                    (filter ident_char
                       (py_join (U ''_'')
                          (take 4 (filter (\<lambda>w. w \<notin> stopwords) (py_words (lower a))))))))"
    by (simp add: generate_webhook_tag_def Let_def re_sub_non_ident_def)
  have 3: "\<forall>t. generate_webhook_tag lower x = Some t \<longrightarrow>
          (\<forall>c \<in> set t. ident_char c) \<and> \<not> adjacent_underscores t
          \<and> (t \<noteq> [] \<longrightarrow> hd t \<noteq> 95 \<and> last t \<noteq> 95)"
    using generated_tag_shape by blast
  from 1 2 3 process_row_tag [of ir lower hs hns st] show ?thesis by blast
qed

lemmas tag_eval_defs = generate_webhook_tag_def Let_def re_sub_non_ident_def ident_char_def
  py_strip_chars_def py_words_def stopwords_def ascii_lower_def lit_defs

theorem generate_webhook_tag_contract_witness:
  "generate_webhook_tag ascii_lower (Some (U ''Send the Email to Customer-Support for a refund''))
     = Some (U ''send_email_customersupport_refund'')
   \<and> \<not> adjacent_underscores (U ''send_email_customersupport_refund'')
   \<and> d_webhooks (process_row ascii_lower False False
        (0, example_row (Str (U ''A'')) (Str (U ''hi'')) (Str (U ''B''))) (empty_data False False))
     = []"
proof -
  let ?a = "U ''Send the Email to Customer-Support for a refund''"
  let ?ir = "(0::nat, example_row (Str (U ''A'')) (Str (U ''hi'')) (Str (U ''B'')))"
  note T = generate_webhook_tag_contract [of ascii_lower ?a "Some ?a" ?ir False False
      "empty_data False False"]
  have ne: "?a \<noteq> []" by (simp add: U_def)
  have v: "py_strip_chars (\<lambda>c. c = 95)
                 (re_sub_runs (\<lambda>c. c = 95)
                    (filter ident_char
                       (py_join (U ''_'')
                          (take 4 (filter (\<lambda>w. w \<notin> stopwords) (py_words (ascii_lower ?a)))))))
      = U ''send_email_customersupport_refund''"
    by (simp add: tag_eval_defs)
  from T ne v have g: "generate_webhook_tag ascii_lower (Some ?a)
      = Some (U ''send_email_customersupport_refund'')"
    by simp
  with T have s: "\<not> adjacent_underscores (U ''send_email_customersupport_refund'')"
    by blast
  have n: "sanitize (col_webhook_action (snd ?ir)) = None"
    by (simp add: example_row_def sanitize_def)
  with T have "d_webhooks (process_row ascii_lower False False ?ir (empty_data False False))
      = d_webhooks (empty_data False False)"
    by blast
  then have w: "d_webhooks (process_row ascii_lower False False ?ir (empty_data False False)) = []"
    by (simp add: empty_data_def)
  from g s w show ?thesis by blast
qed


section \<open>Properties of the retry loop\<close>

text \<open>
  C7 at an endpoint that answers every request with 429 and no \<open>Retry-After\<close>
  header: \<open>_api_request\<close> sends three requests, sleeping 5 seconds after each and 2
  and 4 seconds before the second and the third, and then returns the last 429
  response to its caller; no exception is raised.
\<close>

theorem api_request_always_429:
  "api_request (\<lambda>_. Answers rate_limited)
     = (Returned rate_limited,
        [Request 0, Sleep 5, Sleep 2, Request 1, Sleep 5, Sleep 4, Request 2, Sleep 5])
   \<and> attempts (snd (api_request (\<lambda>_. Answers rate_limited))) = 3"
  by (simp add: api_request_def api_request_from.simps max_retries_def rate_limited_def
      attempts_def)

text \<open>At an endpoint that always fails in the transport, or always answers 503 or
  401, the third attempt is the last and its exception goes to the caller.\<close>

lemma api_request_always_fails:
  "api_request (\<lambda>_. Fails)
     = (Raised RequestException, [Request 0, Sleep 2, Request 1, Sleep 4, Request 2])"
  by (simp add: api_request_def api_request_from.simps max_retries_def)

lemma api_request_always_503:
  "api_request (\<lambda>_. Answers \<lparr>status_code = 503, retry_after = NoRetryAfter\<rparr>)
     = (Raised (HTTPError 503), [Request 0, Sleep 2, Request 1, Sleep 4, Request 2])"
  by (simp add: api_request_def api_request_from.simps max_retries_def)

lemma api_request_always_401:
  "api_request (\<lambda>_. Answers \<lparr>status_code = 401, retry_after = NoRetryAfter\<rparr>)
     = (Raised (HTTPError 401),
        [Request 0, RefreshAuth, Sleep 2, Request 1, RefreshAuth, Sleep 4, Request 2])"
  by (simp add: api_request_def api_request_from.simps max_retries_def)


lemma attempts_simps:
  "attempts [] = 0" "attempts (Request k # es) = Suc (attempts es)"
  "attempts (Sleep s # es) = attempts es" "attempts (RefreshAuth # es) = attempts es"
  "attempts (LogBadRequest # es) = attempts es"
  "attempts (xs @ ys) = attempts xs + attempts ys"
  by (simp_all add: attempts_def)

lemma attempts_bounded_aux:
  "max_retries - attempt = n \<Longrightarrow>
     attempts (snd (api_request_from server attempt response trace)) \<le> attempts trace + n"
proof (induction n arbitrary: attempt response trace)
  case 0
  then have "max_retries \<le> attempt" by simp
  then show ?case
    by (subst api_request_from.simps) (simp split: option.splits)
next
  case (Suc n)
  then have lt: "\<not> max_retries \<le> attempt" and n: "max_retries - (attempt + 1) = n" by simp_all
  have IH: "attempts (snd (api_request_from server a r t)) \<le> Suc (attempts trace + n)"
    if "a = Suc attempt" "attempts t = Suc (attempts trace)" for a r t
    using Suc.IH [OF n, of r t] that by simp
  show ?case
    apply (subst api_request_from.simps)
    apply (simp only: lt if_False Let_def)
    apply (cases "server attempt")
    subgoal by (auto intro!: IH simp: attempts_simps)
    subgoal for r
      apply (cases "retry_after r")
        apply (auto intro!: IH simp: attempts_simps)
      done
    done
qed

text \<open>Whatever the endpoint does, one call sends at most three requests.\<close>

lemma attempts_bounded: "attempts (snd (api_request server)) \<le> 3"
  using attempts_bounded_aux [of 0 3 server None "[]"]
  by (simp add: api_request_def max_retries_def attempts_simps)

section \<open>Properties of the upserts\<close>

lemma index_by_name_snoc:
  "index_by_name d i (items @ [x]) = AList.update (d x) (i x) (index_by_name d i items)"
  by (simp add: index_by_name_def)

lemma index_by_name_Nil: "index_by_name d i [] = []"
  by (simp add: index_by_name_def)

lemma index_by_name_keys: "fst ` set (index_by_name d i items) = d ` set items"
  by (induction items rule: rev_induct)
     (simp_all add: index_by_name_Nil index_by_name_snoc keys_update)

lemma index_by_name_found:
  "map_of (index_by_name d i items) n = Some x \<Longrightarrow> \<exists>item \<in> set items. d item = n \<and> i item = x"
proof (induction items rule: rev_induct)
  case Nil
  then show ?case by (simp add: index_by_name_Nil)
next
  case (snoc y ys)
  then show ?case
    by (cases "d y = n") (auto simp: index_by_name_snoc update_conv')
qed

lemma index_by_name_present:
  "n \<in> d ` set items \<Longrightarrow> \<exists>x. map_of (index_by_name d i items) n = Some x"
proof -
  assume "n \<in> d ` set items"
  then have "n \<in> fst ` set (index_by_name d i items)" by (simp add: index_by_name_keys)
  then have "map_of (index_by_name d i items) n \<noteq> None" by (simp add: map_of_eq_None_iff)
  then show ?thesis by blast
qed

lemma index_by_name_pairs:
  "index_by_name d i items = index_by_name fst snd (map (\<lambda>x. (d x, i x)) items)"
  by (induction items rule: rev_induct) (simp_all add: index_by_name_Nil index_by_name_snoc)

lemma index_flows: "index_by_name f_display f_id (rm_flows s) = index_by_name fst snd (flow_ids s)"
  unfolding flow_ids_def by (rule index_by_name_pairs)

text \<open>How a call ends at a platform that rate-limits the calls in \<open>ks\<close>.\<close>

lemma call_ends_limiting:
  "call_ends (limiting ks k) = (if k \<in> set ks then CallLimited else CallAnswered)"
  by (simp add: call_ends_def limiting_def api_request_def api_request_from.simps
      max_retries_def rate_limited_def ok_response_def)

text \<open>
  C10: \<open>upsert_page\<close> does not read its parameter \<open>is_end_state\<close>: for every flow,
  display name, prompts, chips, page index and state, the result with \<open>True\<close> is the
  result with \<open>False\<close>: the same identifier or exception, and the same state after,
  with the same requests logged and the same payloads on the remote agent.
\<close>

theorem upsert_page_ignores_end_state:
  "upsert_page flow display_name prompts chips pages_index True s
     = upsert_page flow display_name prompts chips pages_index False s"
  by (simp add: upsert_page_def)

text \<open>
  When a webhook with the display name exists on the remote agent and the call that
  lists the webhooks does not end with a 429 response, \<open>upsert_webhook\<close> leaves the
  webhooks of the agent as they are, sends no request but at most the one that lists
  the webhooks, and what it returns is cached under the display name joined to the
  target URI; unless the cache answered, it is the identifier of an existing webhook
  with that display name.
\<close>

lemma upsert_webhook_listed:
  assumes "display_name \<in> w_display ` set (rm_webhooks s)"
    and "call_ends (rm_server s (length (rm_log s))) \<noteq> CallLimited"
  shows "rm_webhooks (snd (upsert_webhook display_name uri headers_map s)) = rm_webhooks s
   \<and> set (drop (length (rm_log s)) (rm_log (snd (upsert_webhook display_name uri headers_map s))))
       \<subseteq> {GetWebhooks}
   \<and> (\<forall>name. fst (upsert_webhook display_name uri headers_map s) = Inr name \<longrightarrow>
         map_of (cache_webhooks (snd (upsert_webhook display_name uri headers_map s)))
           (display_name @ U ''::'' @ uri) = Some name
         \<and> (map_of (cache_webhooks s) (display_name @ U ''::'' @ uri) = None \<longrightarrow>
              (\<exists>w \<in> set (rm_webhooks s). w_display w = display_name \<and> w_id w = name)))"
proof (cases "map_of (cache_webhooks s) (display_name @ U ''::'' @ uri)")
  case (Some cached)
  then have "upsert_webhook display_name uri headers_map s = (Inr cached, s)"
    by (simp add: upsert_webhook_def)
  then show ?thesis using Some by simp
next
  case None
  obtain x where x: "map_of (index_by_name w_display w_id (rm_webhooks s)) display_name = Some x"
    using index_by_name_present [OF assms(1)] by blast
  then have w: "\<exists>w \<in> set (rm_webhooks s). w_display w = display_name \<and> w_id w = x"
    by (rule index_by_name_found)
  show ?thesis
  proof (cases "call_ends (rm_server s (length (rm_log s)))")
    case CallRaises
    then have "upsert_webhook display_name uri headers_map s
        = (Inl ApiError, s\<lparr>rm_log := rm_log s @ [GetWebhooks]\<rparr>)"
      using None
      by (simp add: upsert_webhook_def and_then_def list_webhooks_def api_call_def Let_def)
    then show ?thesis by simp
  next
    case CallLimited
    then show ?thesis using assms(2) by simp
  next
    case CallAnswered
    then have "upsert_webhook display_name uri headers_map s
        = (Inr x, s\<lparr>rm_log := rm_log s @ [GetWebhooks],
                    cache_webhooks := AList.update (display_name @ U ''::'' @ uri) x
                       (cache_webhooks s)\<rparr>)"
      using None x
      by (simp add: upsert_webhook_def and_then_def list_webhooks_def api_call_def Let_def
          done_with_def)
    then show ?thesis using w by (simp add: update_conv')
  qed
qed

text \<open>
  C8 on an agent that has a webhook \<open>Dispatcher\<close> with the identifier 7 and the URI
  \<open>https://old\<close>, when the platform answers the three attempts of the call that lists
  the webhooks with status 429 and answers the next call: \<open>_api_request\<close> hands the
  429 response back, \<open>list_by_name\<close> reads no webhook from it, and \<open>upsert_webhook\<close>
  sends the POST that creates a second webhook \<open>Dispatcher\<close>, returns the new
  identifier 8 and caches it; the claim has no create call and the identifier 7.
\<close>

theorem upsert_webhook_after_rate_limit:
  "fst (upsert_webhook (U ''Dispatcher'') (U ''https://new'') None
          (agent_with_dispatcher (limiting [0]))) = Inr 8
   \<and> rm_log (snd (upsert_webhook (U ''Dispatcher'') (U ''https://new'') None
          (agent_with_dispatcher (limiting [0]))))
       = [GetWebhooks, PostWebhook (U ''Dispatcher'') (U ''https://new'') None]
   \<and> rm_webhooks (snd (upsert_webhook (U ''Dispatcher'') (U ''https://new'') None
          (agent_with_dispatcher (limiting [0]))))
       = [\<lparr>w_id = 7, w_display = U ''Dispatcher'', w_uri = U ''https://old'', w_headers = None\<rparr>,
          \<lparr>w_id = 8, w_display = U ''Dispatcher'', w_uri = U ''https://new'', w_headers = None\<rparr>]
   \<and> cache_webhooks (snd (upsert_webhook (U ''Dispatcher'') (U ''https://new'') None
          (agent_with_dispatcher (limiting [0]))))
       = [(U ''Dispatcher'' @ U ''::'' @ U ''https://new'', 8)]"
  by (simp add: upsert_webhook_def agent_with_dispatcher_def fresh_agent_def and_then_def
      list_webhooks_def post_webhook_def api_call_def done_with_def index_by_name_def Let_def
      no_items_def no_name_def falsy_dict_def call_ends_limiting)

text \<open>The same call when the platform answers every request: the webhook is found.\<close>

lemma upsert_webhook_answered:
  "fst (upsert_webhook (U ''Dispatcher'') (U ''https://new'') None
          (agent_with_dispatcher (limiting []))) = Inr 7
   \<and> rm_log (snd (upsert_webhook (U ''Dispatcher'') (U ''https://new'') None
          (agent_with_dispatcher (limiting [])))) = [GetWebhooks]
   \<and> rm_webhooks (snd (upsert_webhook (U ''Dispatcher'') (U ''https://new'') None
          (agent_with_dispatcher (limiting []))))
       = [\<lparr>w_id = 7, w_display = U ''Dispatcher'', w_uri = U ''https://old'', w_headers = None\<rparr>]"
  by (simp add: upsert_webhook_def agent_with_dispatcher_def fresh_agent_def and_then_def
      list_webhooks_def post_webhook_def api_call_def done_with_def index_by_name_def Let_def
      no_items_def no_name_def falsy_dict_def call_ends_limiting)


section \<open>Frame properties of the requests\<close>

lemma step_keepsD: "step_keeps R m \<Longrightarrow> m s = (r, s') \<Longrightarrow> R s s'"
  by (auto simp: step_keeps_def dest: spec [of _ s])

lemma step_keeps_done: "reflp R \<Longrightarrow> step_keeps R (done_with x)"
  by (simp add: step_keeps_def done_with_def reflp_def)

lemma step_keeps_raise: "reflp R \<Longrightarrow> step_keeps R (\<lambda>s. (Inl e, s))"
  by (simp add: step_keeps_def reflp_def)

lemma step_keeps_no_items: "reflp R \<Longrightarrow> step_keeps R no_items"
  by (simp add: step_keeps_def reflp_def no_items_def)

lemma step_keeps_no_name: "reflp R \<Longrightarrow> step_keeps R no_name"
  by (simp add: step_keeps_def reflp_def no_name_def)

lemma step_keeps_and_then:
  assumes "transp R" "step_keeps R m" "\<And>x. step_keeps R (f x)"
  shows "step_keeps R (and_then m f)"
  unfolding step_keeps_def
proof
  fix s
  obtain r s1 where m: "m s = (r, s1)" by (cases "m s")
  have 1: "R s s1" using assms(2) m by (rule step_keepsD)
  show "R s (snd (and_then m f s))"
  proof (cases r)
    case (Inl e)
    then show ?thesis using m 1 by (simp add: and_then_def)
  next
    case (Inr x)
    have "R s1 (snd (f x s1))" using assms(3) by (simp add: step_keeps_def)
    with 1 have "R s (snd (f x s1))" using assms(1) by (blast dest: transpD)
    then show ?thesis using m Inr by (simp add: and_then_def)
  qed
qed

lemma step_keeps_api_call:
  assumes "transp R" "\<And>s::sync_state. R s (s\<lparr>rm_log := rm_log s @ [req]\<rparr>)"
    "step_keeps R limited" "step_keeps R answer"
  shows "step_keeps R (api_call req limited answer)"
  unfolding step_keeps_def
proof
  fix s :: sync_state
  let ?s' = "s\<lparr>rm_log := rm_log s @ [req]\<rparr>"
  have 1: "R s ?s'" by (rule assms(2))
  have 2: "R ?s' (snd (answer ?s'))" using assms(4) by (simp add: step_keeps_def)
  have 3: "R ?s' (snd (limited ?s'))" using assms(3) by (simp add: step_keeps_def)
  from 1 2 have a: "R s (snd (answer ?s'))" using assms(1) by (blast dest: transpD)
  from 1 3 have l: "R s (snd (limited ?s'))" using assms(1) by (blast dest: transpD)
  show "R s (snd (api_call req limited answer s))"
    using 1 a l
    by (cases "call_ends (rm_server s (length (rm_log s)))") (simp_all add: api_call_def Let_def)
qed

lemma reflp_quiet: "reflp quiet" by (simp add: reflp_def quiet_def)
lemma transp_quiet: "transp quiet" by (auto simp: transp_def quiet_def)
lemma reflp_grows: "reflp grows" by (simp add: reflp_def grows_def)
lemma transp_grows: "transp grows" by (auto simp: transp_def grows_def)

lemma quiet_log: "quiet s (s\<lparr>rm_log := rm_log s @ [req]\<rparr>)"
  by (simp add: quiet_def remote_names_def flow_ids_def)

lemma grows_log: "grows s (s\<lparr>rm_log := l\<rparr>)"
  by (simp add: grows_def intent_names_def page_names_def webhook_names_def flow_ids_def)

lemma map_field_update:
  "(\<And>x. proj (upd x) = proj x) \<Longrightarrow> map proj (map (\<lambda>x. if P x then upd x else x) xs) = map proj xs"
  by (induction xs) auto

lemma quiet_lists:
  "step_keeps quiet list_flows" "step_keeps quiet list_webhooks" "step_keeps quiet list_intents"
  "step_keeps quiet (list_pages flow)"
  unfolding list_flows_def list_webhooks_def list_intents_def list_pages_def
  by (rule step_keeps_api_call [OF transp_quiet quiet_log step_keeps_no_items [OF reflp_quiet]],
      simp add: step_keeps_def quiet_def)+

lemma grows_lists:
  "step_keeps grows list_webhooks" "step_keeps grows list_intents" "step_keeps grows (list_pages flow)"
  unfolding list_webhooks_def list_intents_def list_pages_def
  by (rule step_keeps_api_call [OF transp_grows grows_log step_keeps_no_items [OF reflp_grows]],
      simp add: step_keeps_def grows_def)+

lemma quiet_patches:
  "step_keeps quiet (patch_intent i ph)" "step_keeps quiet (patch_page_entry p en)"
  "step_keeps quiet (patch_page_routes p rs)" "step_keeps quiet (patch_flow_routes f t)"
  unfolding patch_intent_def patch_page_entry_def patch_page_routes_def patch_flow_routes_def
  by (rule step_keeps_api_call [OF transp_quiet quiet_log step_keeps_done [OF reflp_quiet]],
      simp add: step_keeps_def quiet_def remote_names_def flow_ids_def map_field_update o_def)+

lemma quiet_names:
  assumes "quiet s s'"
  shows "webhook_names s' = webhook_names s" "intent_names s' = intent_names s"
    "page_names s' = page_names s" "flow_ids s' = flow_ids s"
proof -
  from assms have "map w_display (rm_webhooks s') = map w_display (rm_webhooks s)"
    and "map i_display (rm_intents s') = map i_display (rm_intents s)"
    and "map (\<lambda>p. (p_flow p, p_display p)) (rm_pages s')
       = map (\<lambda>p. (p_flow p, p_display p)) (rm_pages s)"
    by (simp_all add: quiet_def remote_names_def)
  then have "set (map w_display (rm_webhooks s')) = set (map w_display (rm_webhooks s))"
    and "set (map i_display (rm_intents s')) = set (map i_display (rm_intents s))"
    and "set (map (\<lambda>p. (p_flow p, p_display p)) (rm_pages s'))
       = set (map (\<lambda>p. (p_flow p, p_display p)) (rm_pages s))"
    by simp_all
  then show "webhook_names s' = webhook_names s" "intent_names s' = intent_names s"
    "page_names s' = page_names s"
    by (simp_all add: webhook_names_def intent_names_def page_names_def)
  show "flow_ids s' = flow_ids s" using assms by (simp add: quiet_def)
qed

lemma quiet_grows: "quiet s s' \<Longrightarrow> grows s s'"
  by (simp add: grows_def quiet_names)

lemma step_keeps_quiet_grows: "step_keeps quiet m \<Longrightarrow> step_keeps grows m"
  by (simp add: step_keeps_def quiet_grows)

lemmas grows_patches = quiet_patches [THEN step_keeps_quiet_grows]

lemma grows_post_intent: "step_keeps grows (post_intent n ph)"
  unfolding post_intent_def
  by (rule step_keeps_api_call [OF transp_grows grows_log step_keeps_no_name [OF reflp_grows]])
     (auto simp: step_keeps_def grows_def intent_names_def page_names_def webhook_names_def
        flow_ids_def)

lemma grows_post_page: "step_keeps grows (post_page f n en)"
  unfolding post_page_def
  by (rule step_keeps_api_call [OF transp_grows grows_log step_keeps_no_name [OF reflp_grows]])
     (auto simp: step_keeps_def grows_def intent_names_def page_names_def webhook_names_def
        flow_ids_def)

section \<open>Steps that create nothing\<close>

lemma and_then_done: "and_then (done_with x) f = f x"
  by (rule ext) (simp add: and_then_def done_with_def)

lemma present_key: "k \<in> fst ` set al \<Longrightarrow> \<exists>v. map_of al k = Some v"
  by (metis map_of_eq_None_iff not_Some_eq)

lemma quiet_upsert_page_found:
  "map_of idx name = Some x \<Longrightarrow> step_keeps quiet (upsert_page flow name pr ch (Some idx) e)"
proof -
  assume f: "map_of idx name = Some x"
  then have ne: "idx \<noteq> []" by auto
  have "upsert_page flow name pr ch (Some idx) e
      = and_then (patch_page_entry x (entry_messages pr ch)) (\<lambda>_. done_with x)"
    using f ne by (simp add: upsert_page_def falsy_dict_def and_then_done Let_def)
  then show ?thesis
    by (simp add: step_keeps_and_then [OF transp_quiet] quiet_patches
        step_keeps_done [OF reflp_quiet])
qed

lemma quiet_upsert_intent_found:
  "map_of idx name = Some x \<Longrightarrow> step_keeps quiet (upsert_intent name tps (Some idx))"
proof -
  assume f: "map_of idx name = Some x"
  then have ne: "idx \<noteq> []" by auto
  have "upsert_intent name tps (Some idx)
      = and_then (patch_intent x (filter (\<lambda>tp. tp \<noteq> []) tps)) (\<lambda>_. done_with x)"
    using f ne by (simp add: upsert_intent_def falsy_dict_def and_then_done Let_def)
  then show ?thesis
    by (simp add: step_keeps_and_then [OF transp_quiet] quiet_patches
        step_keeps_done [OF reflp_quiet])
qed

lemma quiet_upsert_pages:
  "\<forall>entry \<in> set entries. fst entry \<in> fst ` set idx \<Longrightarrow>
     step_keeps quiet (upsert_pages flow ep entries idx m)"
proof (induction entries arbitrary: idx m)
  case Nil
  show ?case by (simp add: step_keeps_done [OF reflp_quiet])
next
  case (Cons entry rest)
  then obtain x where x: "map_of idx (fst entry) = Some x"
    using present_key [of "fst entry" idx] by auto
  have rest: "step_keeps quiet (upsert_pages flow ep rest (AList.update (fst entry) r idx)
      (AList.update (fst entry) r m))" for r
    using Cons.prems by (intro Cons.IH) (auto simp: keys_update)
  show ?case
    by (simp add: step_keeps_and_then [OF transp_quiet] quiet_upsert_page_found [OF x] rest)
qed

lemma quiet_upsert_intents:
  "\<forall>entry \<in> set entries. fst entry \<in> fst ` set idx \<Longrightarrow>
     step_keeps quiet (upsert_intents entries idx m)"
proof (induction entries arbitrary: idx m)
  case Nil
  show ?case by (simp add: step_keeps_done [OF reflp_quiet])
next
  case (Cons entry rest)
  then obtain x where x: "map_of idx (fst entry) = Some x"
    using present_key [of "fst entry" idx] by auto
  have rest: "step_keeps quiet (upsert_intents rest (AList.update (fst entry) r idx)
      (AList.update (fst entry) r m))" for r
    using Cons.prems by (intro Cons.IH) (auto simp: keys_update)
  show ?case
    by (simp add: step_keeps_and_then [OF transp_quiet] quiet_upsert_intent_found [OF x] rest)
qed

lemma quiet_apply_routes: "step_keeps quiet (apply_routes i2id p2id disp entries)"
proof (induction entries)
  case Nil
  show ?case by (simp add: step_keeps_done [OF reflp_quiet])
next
  case (Cons entry rest)
  show ?case
    by (cases "map_of p2id (fst entry)")
       (simp_all add: Cons.IH Let_def step_keeps_and_then [OF transp_quiet] quiet_patches)
qed

lemma quiet_start_route: "step_keeps quiet (patch_flow_start_route flow name)"
  unfolding patch_flow_start_route_def
  by (rule step_keeps_and_then [OF transp_quiet quiet_lists(4)])
     (simp add: quiet_patches step_keeps_raise [OF reflp_quiet] split: option.splits)


section \<open>Steps that only add, and what a successful upsert leaves behind\<close>

lemma and_then_Inr:
  "and_then m f s = (Inr y, s') \<Longrightarrow> \<exists>x s1. m s = (Inr x, s1) \<and> f x s1 = (Inr y, s')"
  by (cases "m s") (auto simp: and_then_def split: sum.splits)

lemma grows_upsert_page: "step_keeps grows (upsert_page flow name pr ch idx0 e)"
  unfolding upsert_page_def
  by (rule step_keeps_and_then [OF transp_grows])
     (auto simp: Let_def step_keeps_done [OF reflp_grows] grows_post_page grows_patches
        grows_lists
        intro!: step_keeps_and_then [OF transp_grows] split: option.splits)

lemma grows_upsert_intent: "step_keeps grows (upsert_intent name tps idx0)"
  unfolding upsert_intent_def
  by (rule step_keeps_and_then [OF transp_grows])
     (auto simp: Let_def step_keeps_done [OF reflp_grows] grows_post_intent grows_patches
        grows_lists
        intro!: step_keeps_and_then [OF transp_grows] split: option.splits)

lemma grows_upsert_pages: "step_keeps grows (upsert_pages flow ep entries idx m)"
  by (induction entries arbitrary: idx m)
     (simp_all add: step_keeps_done [OF reflp_grows] step_keeps_and_then [OF transp_grows]
        grows_upsert_page)

lemma grows_upsert_intents: "step_keeps grows (upsert_intents entries idx m)"
  by (induction entries arbitrary: idx m)
     (simp_all add: step_keeps_done [OF reflp_grows] step_keeps_and_then [OF transp_grows]
        grows_upsert_intent)

text \<open>What a listing returns: the empty index after a 429 response, the index of the
  collection after an answer.\<close>

lemma list_pages_cases:
  assumes "list_pages flow s = (Inr idx, s1)"
  shows "s1 = s\<lparr>rm_log := rm_log s @ [GetPages flow]\<rparr>"
    and "idx = [] \<or> idx = index_by_name p_display p_id (filter (\<lambda>p. p_flow p = flow) (rm_pages s))"
    and "call_ends (rm_server s (length (rm_log s))) \<noteq> CallLimited \<Longrightarrow>
         idx = index_by_name p_display p_id (filter (\<lambda>p. p_flow p = flow) (rm_pages s))"
  using assms
  by (auto simp: list_pages_def api_call_def Let_def no_items_def split: call_end.splits)

lemma list_intents_cases:
  assumes "list_intents s = (Inr idx, s1)"
  shows "s1 = s\<lparr>rm_log := rm_log s @ [GetIntents]\<rparr>"
    and "idx = [] \<or> idx = index_by_name i_display i_id (rm_intents s)"
    and "call_ends (rm_server s (length (rm_log s))) \<noteq> CallLimited \<Longrightarrow>
         idx = index_by_name i_display i_id (rm_intents s)"
  using assms
  by (auto simp: list_intents_def api_call_def Let_def no_items_def split: call_end.splits)

lemma page_keys:
  "fst ` set (index_by_name p_display p_id (filter (\<lambda>p. p_flow p = flow) (rm_pages s)))
     = {n. (flow, n) \<in> page_names s}"
  unfolding index_by_name_keys by (auto simp: page_names_def)

lemma intent_keys: "fst ` set (index_by_name i_display i_id (rm_intents s)) = intent_names s"
  unfolding index_by_name_keys by (simp add: intent_names_def)

lemma list_pages_result:
  assumes "list_pages flow s = (Inr idx, s1)"
  shows "fst ` set idx \<subseteq> {n. (flow, n) \<in> page_names s}" and "page_names s1 = page_names s"
    and "call_ends (rm_server s (length (rm_log s))) \<noteq> CallLimited \<Longrightarrow>
         fst ` set idx = {n. (flow, n) \<in> page_names s}"
proof -
  show "fst ` set idx \<subseteq> {n. (flow, n) \<in> page_names s}"
    using list_pages_cases(2) [OF assms] page_keys [of flow s] by auto
  show "page_names s1 = page_names s"
    unfolding list_pages_cases(1) [OF assms] by (simp add: page_names_def)
  show "fst ` set idx = {n. (flow, n) \<in> page_names s}"
    if "call_ends (rm_server s (length (rm_log s))) \<noteq> CallLimited"
    using list_pages_cases(3) [OF assms that] page_keys [of flow s] by simp
qed

lemma list_intents_result:
  assumes "list_intents s = (Inr idx, s1)"
  shows "fst ` set idx \<subseteq> intent_names s" and "intent_names s1 = intent_names s"
    and "call_ends (rm_server s (length (rm_log s))) \<noteq> CallLimited \<Longrightarrow>
         fst ` set idx = intent_names s"
proof -
  show "fst ` set idx \<subseteq> intent_names s"
    using list_intents_cases(2) [OF assms] intent_keys [of s] by auto
  show "intent_names s1 = intent_names s"
    unfolding list_intents_cases(1) [OF assms] by (simp add: intent_names_def)
  show "fst ` set idx = intent_names s"
    if "call_ends (rm_server s (length (rm_log s))) \<noteq> CallLimited"
    using list_intents_cases(3) [OF assms that] intent_keys [of s] by simp
qed

lemma post_page_registers:
  "post_page flow name en s = (Inr x, s') \<Longrightarrow> (flow, name) \<in> page_names s'"
  by (auto simp: post_page_def api_call_def Let_def page_names_def no_name_def
      split: call_end.splits)

lemma post_intent_registers:
  "post_intent name ph s = (Inr x, s') \<Longrightarrow> name \<in> intent_names s'"
  by (auto simp: post_intent_def api_call_def Let_def intent_names_def no_name_def
      split: call_end.splits)

lemma key_of_map_of: "map_of al k = Some v \<Longrightarrow> k \<in> fst ` set al"
  by (metis map_of_eq_None_iff option.distinct(1))

lemma upsert_page_registers:
  assumes u: "upsert_page flow name pr ch (Some idx) e s = (Inr x, s')"
    and ok: "\<forall>n \<in> fst ` set idx. (flow, n) \<in> page_names s"
  shows "(flow, name) \<in> page_names s'"
proof -
  have g: "page_names s \<subseteq> page_names s'"
    using step_keepsD [OF grows_upsert_page u] by (simp add: grows_def)
  from u obtain pi s1 where
    l: "(if falsy_dict (Some idx) then list_pages flow else done_with (the (Some idx))) s
        = (Inr pi, s1)"
    and r: "(case map_of pi name of
               Some page_name \<Rightarrow>
                 and_then (patch_page_entry page_name (entry_messages pr ch))
                   (\<lambda>_. done_with page_name)
             | None \<Rightarrow> post_page flow name (entry_messages pr ch)) s1 = (Inr x, s')"
    unfolding upsert_page_def Let_def by (auto dest!: and_then_Inr)
  have keys: "\<forall>n \<in> fst ` set pi. (flow, n) \<in> page_names s"
  proof (cases "idx = []")
    case True
    then have "list_pages flow s = (Inr pi, s1)" using l by (simp add: falsy_dict_def)
    then show ?thesis using list_pages_result(1) by blast
  next
    case False
    then have "pi = idx" using l by (simp add: falsy_dict_def done_with_def)
    then show ?thesis using ok by simp
  qed
  show ?thesis
  proof (cases "map_of pi name")
    case None
    then have "post_page flow name (entry_messages pr ch) s1 = (Inr x, s')" using r by simp
    then show ?thesis by (rule post_page_registers)
  next
    case (Some pn)
    then have "name \<in> fst ` set pi" by (rule key_of_map_of)
    then have "(flow, name) \<in> page_names s" using keys by blast
    then show ?thesis using g by blast
  qed
qed

lemma upsert_intent_registers:
  assumes u: "upsert_intent name tps (Some idx) s = (Inr x, s')"
    and ok: "fst ` set idx \<subseteq> intent_names s"
  shows "name \<in> intent_names s'"
proof -
  have g: "intent_names s \<subseteq> intent_names s'"
    using step_keepsD [OF grows_upsert_intent u] by (simp add: grows_def)
  from u obtain ii s1 where
    l: "(if falsy_dict (Some idx) then list_intents else done_with (the (Some idx))) s
        = (Inr ii, s1)"
    and r: "(case map_of ii name of
               Some intent_name \<Rightarrow>
                 and_then (patch_intent intent_name (filter (\<lambda>tp. tp \<noteq> []) tps))
                   (\<lambda>_. done_with intent_name)
             | None \<Rightarrow> post_intent name (filter (\<lambda>tp. tp \<noteq> []) tps)) s1 = (Inr x, s')"
    unfolding upsert_intent_def Let_def by (auto dest!: and_then_Inr)
  have keys: "fst ` set ii \<subseteq> intent_names s"
  proof (cases "idx = []")
    case True
    then have "list_intents s = (Inr ii, s1)" using l by (simp add: falsy_dict_def)
    then show ?thesis using list_intents_result(1) by blast
  next
    case False
    then have "ii = idx" using l by (simp add: falsy_dict_def done_with_def)
    then show ?thesis using ok by simp
  qed
  show ?thesis
  proof (cases "map_of ii name")
    case None
    then have "post_intent name (filter (\<lambda>tp. tp \<noteq> []) tps) s1 = (Inr x, s')" using r by simp
    then show ?thesis by (rule post_intent_registers)
  next
    case (Some pn)
    then have "name \<in> fst ` set ii" by (rule key_of_map_of)
    then show ?thesis using keys g by blast
  qed
qed

lemma upsert_pages_registers:
  "upsert_pages flow ep entries idx m s = (Inr r, s') \<Longrightarrow>
   \<forall>n \<in> fst ` set idx. (flow, n) \<in> page_names s \<Longrightarrow>
   \<forall>entry \<in> set entries. (flow, fst entry) \<in> page_names s'"
proof (induction entries arbitrary: idx m s)
  case Nil
  show ?case by simp
next
  case (Cons entry rest)
  from Cons.prems(1) obtain x s1 where
    u: "upsert_page flow (fst entry) (pg_prompts (snd entry)) (pg_chips (snd entry)) (Some idx)
          (fst entry \<in> set ep) s = (Inr x, s1)"
    and r: "upsert_pages flow ep rest (AList.update (fst entry) x idx)
          (AList.update (fst entry) x m) s1 = (Inr r, s')"
    by (auto dest!: and_then_Inr)
  have here: "(flow, fst entry) \<in> page_names s1"
    using u Cons.prems(2) by (rule upsert_page_registers)
  have g1: "page_names s \<subseteq> page_names s1"
    using step_keepsD [OF grows_upsert_page u] by (simp add: grows_def)
  have g2: "page_names s1 \<subseteq> page_names s'"
    using step_keepsD [OF grows_upsert_pages r] by (simp add: grows_def)
  have "\<forall>n \<in> fst ` set (AList.update (fst entry) x idx). (flow, n) \<in> page_names s1"
    using Cons.prems(2) here g1 by (auto simp: keys_update)
  with r have "\<forall>entry \<in> set rest. (flow, fst entry) \<in> page_names s'"
    by (rule Cons.IH)
  with here g2 show ?case by auto
qed

lemma upsert_intents_registers:
  "upsert_intents entries idx m s = (Inr r, s') \<Longrightarrow>
   fst ` set idx \<subseteq> intent_names s \<Longrightarrow>
   \<forall>entry \<in> set entries. fst entry \<in> intent_names s'"
proof (induction entries arbitrary: idx m s)
  case Nil
  show ?case by simp
next
  case (Cons entry rest)
  from Cons.prems(1) obtain x s1 where
    u: "upsert_intent (fst entry) (snd entry) (Some idx) s = (Inr x, s1)"
    and r: "upsert_intents rest (AList.update (fst entry) x idx)
          (AList.update (fst entry) x m) s1 = (Inr r, s')"
    by (auto dest!: and_then_Inr)
  have here: "fst entry \<in> intent_names s1"
    using u Cons.prems(2) by (rule upsert_intent_registers)
  have g1: "intent_names s \<subseteq> intent_names s1"
    using step_keepsD [OF grows_upsert_intent u] by (simp add: grows_def)
  have g2: "intent_names s1 \<subseteq> intent_names s'"
    using step_keepsD [OF grows_upsert_intents r] by (simp add: grows_def)
  have "fst ` set (AList.update (fst entry) x idx) \<subseteq> intent_names s1"
    using Cons.prems(2) here g1 by (auto simp: keys_update)
  with r have "\<forall>entry \<in> set rest. fst entry \<in> intent_names s'"
    by (rule Cons.IH)
  with here g2 show ?case by auto
qed

text \<open>The two upserts that go through the cache, for an uploader whose cache has no
  entry under the key.\<close>

lemma flow_ids_log: "flow_ids (s\<lparr>rm_log := l\<rparr>) = flow_ids s"
  by (simp add: flow_ids_def)

lemma list_flows_cases:
  assumes "list_flows s = (Inr idx, s1)"
  shows "s1 = s\<lparr>rm_log := rm_log s @ [GetFlows]\<rparr>"
    and "idx = [] \<or> idx = index_by_name fst snd (flow_ids s)"
    and "call_ends (rm_server s (length (rm_log s))) \<noteq> CallLimited \<Longrightarrow>
         idx = index_by_name fst snd (flow_ids s)"
  using assms
  by (auto simp: list_flows_def api_call_def Let_def no_items_def index_flows flow_ids_log
      split: call_end.splits)

lemma list_webhooks_cases:
  assumes "list_webhooks s = (Inr idx, s1)"
  shows "s1 = s\<lparr>rm_log := rm_log s @ [GetWebhooks]\<rparr>"
    and "idx = [] \<or> idx = index_by_name w_display w_id (rm_webhooks s)"
    and "call_ends (rm_server s (length (rm_log s))) \<noteq> CallLimited \<Longrightarrow>
         idx = index_by_name w_display w_id (rm_webhooks s)"
  using assms
  by (auto simp: list_webhooks_def api_call_def Let_def no_items_def split: call_end.splits)

lemma post_flow_cases:
  assumes "post_flow name s = (Inr x, s1)"
  shows "x = rm_next_id s" and "flow_ids s1 = flow_ids s @ [(name, rm_next_id s)]"
    and "cache_webhooks s1 = cache_webhooks s" and "cache_flows s1 = cache_flows s"
  using assms
  by (auto simp: post_flow_def api_call_def Let_def no_name_def flow_ids_def
      split: call_end.splits)

lemma post_webhook_registers:
  "post_webhook name uri h s = (Inr x, s') \<Longrightarrow> name \<in> webhook_names s'"
  by (auto simp: post_webhook_def api_call_def Let_def webhook_names_def no_name_def
      split: call_end.splits)

lemma upsert_flow_indexed:
  assumes u: "upsert_flow name s = (Inr flow, s')"
    and miss: "map_of (cache_flows s) name = None"
  shows "map_of (index_by_name fst snd (flow_ids s')) name = Some flow"
    and "cache_webhooks s' = cache_webhooks s"
proof -
  from u miss obtain idx sa x sb where
    l: "list_flows s = (Inr idx, sa)" and
    c: "(case map_of idx name of Some existing \<Rightarrow> done_with existing
         | None \<Rightarrow> post_flow name) sa = (Inr x, sb)" and
    e: "flow = x" "s' = sb\<lparr>cache_flows := AList.update name x (cache_flows sb)\<rparr>"
    unfolding upsert_flow_def by (auto dest!: and_then_Inr)
  note sa = list_flows_cases(1) [OF l]
  have ids: "flow_ids s' = flow_ids sb" and ids_a: "flow_ids sa = flow_ids s"
    and cw: "cache_webhooks s' = cache_webhooks sb" "cache_webhooks sa = cache_webhooks s"
    unfolding e sa by (simp_all add: flow_ids_def)
  show "map_of (index_by_name fst snd (flow_ids s')) name = Some flow"
  proof (cases "map_of idx name")
    case (Some existing)
    with c have x: "x = existing" "sb = sa" by (simp_all add: done_with_def)
    from Some have "idx \<noteq> []" by auto
    then have "idx = index_by_name fst snd (flow_ids s)" using list_flows_cases(2) [OF l] by simp
    then show ?thesis using Some x e ids ids_a by simp
  next
    case None
    with c have p: "post_flow name sa = (Inr x, sb)" by simp
    have "flow_ids sb = flow_ids sa @ [(name, x)]"
      using post_flow_cases(1,2) [OF p] by simp
    then show ?thesis using e ids by (simp add: index_by_name_snoc update_conv')
  qed
  show "cache_webhooks s' = cache_webhooks s"
  proof (cases "map_of idx name")
    case (Some existing)
    with c have "sb = sa" by (simp add: done_with_def)
    then show ?thesis using cw by simp
  next
    case None
    with c have p: "post_flow name sa = (Inr x, sb)" by simp
    show ?thesis using post_flow_cases(3) [OF p] cw by simp
  qed
qed

lemma upsert_webhook_registers:
  assumes u: "upsert_webhook name uri h s = (Inr w, s')"
    and miss: "map_of (cache_webhooks s) (name @ U ''::'' @ uri) = None"
  shows "name \<in> webhook_names s'"
proof -
  from u miss obtain idx sa x sb where
    l: "list_webhooks s = (Inr idx, sa)" and
    c: "(case map_of idx name of Some existing \<Rightarrow> done_with existing
         | None \<Rightarrow> post_webhook name uri (if falsy_dict h then None else h)) sa = (Inr x, sb)" and
    e: "s' = sb\<lparr>cache_webhooks := AList.update (name @ U ''::'' @ uri) x (cache_webhooks sb)\<rparr>"
    unfolding upsert_webhook_def Let_def by (auto dest!: and_then_Inr)
  note sa = list_webhooks_cases(1) [OF l]
  have n: "webhook_names s' = webhook_names sb" "webhook_names sa = webhook_names s"
    unfolding e sa by (simp_all add: webhook_names_def)
  show ?thesis
  proof (cases "map_of idx name")
    case (Some existing)
    with c have sb: "sb = sa" by (simp add: done_with_def)
    from Some have "idx \<noteq> []" by auto
    then have "idx = index_by_name w_display w_id (rm_webhooks s)"
      using list_webhooks_cases(2) [OF l] by simp
    then have "name \<in> w_display ` set (rm_webhooks s)"
      using Some index_by_name_keys [of w_display w_id "rm_webhooks s"] key_of_map_of [OF Some]
      by simp
    then show ?thesis using n sb by (simp add: webhook_names_def)
  next
    case None
    with c have "post_webhook name uri (if falsy_dict h then None else h) sa = (Inr x, sb)"
      by simp
    then have "name \<in> webhook_names sb" by (rule post_webhook_registers)
    then show ?thesis using n by simp
  qed
qed

lemma grows_upsert_webhook: "upsert_webhook name uri h s = (r, s') \<Longrightarrow> grows s s'"
  by (cases "map_of (cache_webhooks s) (name @ U ''::'' @ uri)")
     (auto simp: upsert_webhook_def Let_def and_then_def list_webhooks_def api_call_def
        post_webhook_def done_with_def grows_def intent_names_def page_names_def
        webhook_names_def flow_ids_def no_items_def no_name_def
        split: call_end.splits option.splits sum.splits prod.splits)

lemma growsD:
  assumes "grows s s'"
  shows "intent_names s \<subseteq> intent_names s'" "page_names s \<subseteq> page_names s'"
    "webhook_names s \<subseteq> webhook_names s'" "flow_ids s' = flow_ids s"
  using assms by (auto simp: grows_def)

lemma grows_trans: "grows a b \<Longrightarrow> grows b c \<Longrightarrow> grows a c"
  using transp_grows by (blast dest: transpD)

lemma grows_start_branch:
  "step_keeps grows (if c then patch_flow_start_route flow name else done_with ())"
  by (simp add: step_keeps_quiet_grows [OF quiet_start_route] step_keeps_done [OF reflp_grows])

text \<open>A successful upload by a new uploader leaves the graph on the remote agent,
  whatever the platform did to the calls.\<close>

lemma upload_steps_uploaded:
  assumes up: "upload_steps cfg graph name s0 = (Inr u, s1)"
    and new: "cache_flows s0 = []" "cache_webhooks s0 = []"
  shows "\<exists>flow. uploaded graph name flow s1"
proof -
  let ?key = "U ''Dispatcher'' @ U ''::'' @ dispatcher_url cfg"
  from up obtain flow sa disp sb ii sc pi sd p2id se i2id sf v sg where
    a: "upsert_flow name s0 = (Inr flow, sa)" and
    b: "(if needs_dispatcher graph
         then and_then
                (upsert_webhook (U ''Dispatcher'') (dispatcher_url cfg)
                   (header_map (dispatcher_header cfg)))
                (\<lambda>name. done_with (Some name))
         else done_with None) sa = (Inr disp, sb)" and
    c: "list_intents sb = (Inr ii, sc)" and
    d: "list_pages flow sc = (Inr pi, sd)" and
    e: "upsert_pages flow (d_end_pages graph) (d_pages graph) pi [] sd = (Inr p2id, se)" and
    f: "upsert_intents (d_intents graph) ii [] se = (Inr i2id, sf)" and
    g: "apply_routes i2id p2id disp (routes_by_page (d_routes graph)) sf = (Inr v, sg)" and
    h: "(if truthy (d_first_page graph)
         then patch_flow_start_route flow (the (d_first_page graph)) else done_with ()) sg
        = (Inr u, s1)"
    unfolding upload_steps_def needs_dispatcher_def [symmetric]
    by (elim and_then_Inr [elim_format] exE conjE) blast
  have miss: "map_of (cache_flows s0) name = None" using new by simp
  note fa = upsert_flow_indexed [OF a miss]
  have gb: "grows sa sb" and wb: "needs_dispatcher graph \<longrightarrow> U ''Dispatcher'' \<in> webhook_names sb"
  proof -
    show "grows sa sb"
    proof (cases "needs_dispatcher graph")
      case True
      with b obtain w sw where w: "upsert_webhook (U ''Dispatcher'') (dispatcher_url cfg)
          (header_map (dispatcher_header cfg)) sa = (Inr w, sw)" and "sb = sw"
        by (auto simp: done_with_def dest!: and_then_Inr)
      then show ?thesis using grows_upsert_webhook by blast
    next
      case False
      with b have "sb = sa" by (simp add: done_with_def)
      then show ?thesis using reflp_grows by (simp add: reflp_def)
    qed
    show "needs_dispatcher graph \<longrightarrow> U ''Dispatcher'' \<in> webhook_names sb"
    proof
      assume "needs_dispatcher graph"
      with b obtain w sw where w: "upsert_webhook (U ''Dispatcher'') (dispatcher_url cfg)
          (header_map (dispatcher_header cfg)) sa = (Inr w, sw)" and sw: "sb = sw"
        by (auto simp: done_with_def dest!: and_then_Inr)
      have "map_of (cache_webhooks sa) ?key = None" using fa(2) new by simp
      with w have "U ''Dispatcher'' \<in> webhook_names sw" by (rule upsert_webhook_registers)
      then show "U ''Dispatcher'' \<in> webhook_names sb" using sw by simp
    qed
  qed
  have gc: "grows sb sc" using step_keepsD [OF grows_lists(2) c] .
  have gd: "grows sc sd" using step_keepsD [OF grows_lists(3) d] .
  have ge: "grows sd se" using step_keepsD [OF grows_upsert_pages e] .
  have gf: "grows se sf" using step_keepsD [OF grows_upsert_intents f] .
  have gg: "grows sf sg"
    using step_keepsD [OF step_keeps_quiet_grows [OF quiet_apply_routes] g] .
  have gh: "grows sg s1" using step_keepsD [OF grows_start_branch h] .
  have ga1: "grows sa s1"
    using gb gc gd ge gf gg gh by (blast intro: grows_trans)
  have gb1: "grows sb s1" using gc gd ge gf gg gh by (blast intro: grows_trans)
  have ge1: "grows se s1" using gf gg gh by (blast intro: grows_trans)
  have gf1: "grows sf s1" using gg gh by (blast intro: grows_trans)
  have 1: "map_of (index_by_name fst snd (flow_ids s1)) name = Some flow"
    using fa(1) growsD(4) [OF ga1] by simp
  have 2: "needs_dispatcher graph \<longrightarrow> U ''Dispatcher'' \<in> webhook_names s1"
    using wb growsD(3) [OF gb1] by blast
  have "\<forall>n \<in> fst ` set pi. (flow, n) \<in> page_names sd"
    using list_pages_result(1,2) [OF d] by auto
  with e have "\<forall>entry \<in> set (d_pages graph). (flow, fst entry) \<in> page_names se"
    by (rule upsert_pages_registers)
  then have 3: "\<forall>entry \<in> set (d_pages graph). (flow, fst entry) \<in> page_names s1"
    using growsD(2) [OF ge1] by blast
  have "fst ` set ii \<subseteq> intent_names se"
    using list_intents_result(1) [OF c] growsD(1) [OF gc] growsD(1) [OF gd] growsD(1) [OF ge]
    by blast
  with f have "\<forall>entry \<in> set (d_intents graph). fst entry \<in> intent_names sf"
    by (rule upsert_intents_registers)
  then have 4: "\<forall>entry \<in> set (d_intents graph). fst entry \<in> intent_names s1"
    using growsD(1) [OF gf1] by blast
  from 1 2 3 4 show ?thesis unfolding uploaded_def by blast
qed


section \<open>Uploading a graph twice\<close>

lemma step_at:
  assumes "transp R" "R s (snd (m s))"
    and "\<And>x s1. m s = (Inr x, s1) \<Longrightarrow> R s1 (snd (f x s1))"
  shows "R s (snd (and_then m f s))"
proof -
  obtain r s1 where m: "m s = (r, s1)" by (cases "m s")
  have 1: "R s s1" using assms(2) m by simp
  show ?thesis
  proof (cases r)
    case (Inl e)
    then show ?thesis using m 1 by (simp add: and_then_def)
  next
    case (Inr x)
    then have "R s1 (snd (f x s1))" using assms(3) m by simp
    with 1 have "R s (snd (f x s1))" using assms(1) by (blast dest: transpD)
    then show ?thesis using m Inr by (simp add: and_then_def)
  qed
qed

lemma unlimited_quiet: "unlimited s \<Longrightarrow> quiet s s' \<Longrightarrow> unlimited s'"
  by (auto simp: unlimited_def quiet_def)

lemma unlimitedD: "unlimited s \<Longrightarrow> call_ends (rm_server s (length (rm_log s))) \<noteq> CallLimited"
  by (simp add: unlimited_def)

lemma uploaded_quiet_pres: "uploaded graph name flow s \<Longrightarrow> quiet s s' \<Longrightarrow> uploaded graph name flow s'"
  by (simp add: uploaded_def quiet_names)

text \<open>The flow and the webhook are found by display name when their listing does not
  end with a 429 response.\<close>

lemma upsert_flow_found:
  assumes idx: "map_of (index_by_name fst snd (flow_ids s)) name = Some flow"
    and nl: "call_ends (rm_server s (length (rm_log s))) \<noteq> CallLimited"
    and miss: "map_of (cache_flows s) name = None"
  shows "quiet s (snd (upsert_flow name s))"
    and "upsert_flow name s = (Inr x, sa) \<Longrightarrow> x = flow"
proof -
  have r: "upsert_flow name s = (Inl ApiError, s\<lparr>rm_log := rm_log s @ [GetFlows]\<rparr>)
      \<or> upsert_flow name s
          = (Inr flow, s\<lparr>rm_log := rm_log s @ [GetFlows],
                         cache_flows := AList.update name flow (cache_flows s)\<rparr>)"
  proof (cases "call_ends (rm_server s (length (rm_log s)))")
    case CallRaises
    then show ?thesis
      using miss by (simp add: upsert_flow_def and_then_def list_flows_def api_call_def Let_def)
  next
    case CallLimited
    then show ?thesis using nl by simp
  next
    case CallAnswered
    then show ?thesis
      using miss idx
      by (simp add: upsert_flow_def and_then_def list_flows_def api_call_def Let_def
          done_with_def index_flows flow_ids_log)
  qed
  then show "quiet s (snd (upsert_flow name s))"
    by (auto simp: quiet_def remote_names_def flow_ids_def)
  show "x = flow" if "upsert_flow name s = (Inr x, sa)"
    using r that by auto
qed

lemma upsert_webhook_found:
  assumes ex: "name \<in> webhook_names s"
    and nl: "call_ends (rm_server s (length (rm_log s))) \<noteq> CallLimited"
  shows "quiet s (snd (upsert_webhook name uri h s))"
proof (cases "map_of (cache_webhooks s) (name @ U ''::'' @ uri)")
  case (Some cached)
  then have "upsert_webhook name uri h s = (Inr cached, s)"
    by (simp add: upsert_webhook_def)
  then show ?thesis using reflp_quiet by (simp add: reflp_def)
next
  case None
  obtain x where x: "map_of (index_by_name w_display w_id (rm_webhooks s)) name = Some x"
    using index_by_name_present [of name w_display "rm_webhooks s" w_id] ex
    by (auto simp: webhook_names_def)
  have "upsert_webhook name uri h s = (Inl ApiError, s\<lparr>rm_log := rm_log s @ [GetWebhooks]\<rparr>)
      \<or> upsert_webhook name uri h s
          = (Inr x, s\<lparr>rm_log := rm_log s @ [GetWebhooks],
                      cache_webhooks := AList.update (name @ U ''::'' @ uri) x
                         (cache_webhooks s)\<rparr>)"
  proof (cases "call_ends (rm_server s (length (rm_log s)))")
    case CallRaises
    then show ?thesis
      using None
      by (simp add: upsert_webhook_def and_then_def list_webhooks_def api_call_def Let_def)
  next
    case CallLimited
    then show ?thesis using nl by simp
  next
    case CallAnswered
    then show ?thesis
      using None x
      by (simp add: upsert_webhook_def and_then_def list_webhooks_def api_call_def Let_def
          done_with_def)
  qed
  then show ?thesis by (auto simp: quiet_def remote_names_def flow_ids_def)
qed

lemma quiet_start_branch:
  "step_keeps quiet (if c then patch_flow_start_route flow name else done_with ())"
  by (simp add: quiet_start_route step_keeps_done [OF reflp_quiet])

lemma quiet_tail:
  assumes "\<forall>entry \<in> set (d_pages graph). fst entry \<in> fst ` set pi"
    and "\<forall>entry \<in> set (d_intents graph). fst entry \<in> fst ` set ii"
  shows "step_keeps quiet
     (and_then (upsert_pages flow (d_end_pages graph) (d_pages graph) pi [])
        (\<lambda>page_name_to_id.
           and_then (upsert_intents (d_intents graph) ii [])
             (\<lambda>intent_name_to_id.
                and_then
                  (apply_routes intent_name_to_id page_name_to_id disp
                     (routes_by_page (d_routes graph)))
                  (\<lambda>_. if truthy (d_first_page graph)
                        then patch_flow_start_route flow (the (d_first_page graph))
                        else done_with ()))))"
  by (intro step_keeps_and_then [OF transp_quiet] quiet_upsert_pages [OF assms(1)]
      quiet_upsert_intents [OF assms(2)] quiet_apply_routes quiet_start_branch)

text \<open>When the graph is on the remote agent and no call ends with a 429 response, the
  upload by a new uploader creates nothing, whichever of its calls raise.\<close>

lemma uploaded_quiet:
  assumes up: "uploaded graph name flow s" and ul: "unlimited s"
    and miss: "map_of (cache_flows s) name = None"
  shows "quiet s (snd (upload_steps cfg graph name s))"
proof -
  define tail where "tail = (\<lambda>fl disp ii pi.
      and_then (upsert_pages fl (d_end_pages graph) (d_pages graph) pi [])
        (\<lambda>page_name_to_id.
           and_then (upsert_intents (d_intents graph) ii [])
             (\<lambda>intent_name_to_id.
                and_then
                  (apply_routes intent_name_to_id page_name_to_id disp
                     (routes_by_page (d_routes graph)))
                  (\<lambda>_. if truthy (d_first_page graph)
                        then patch_flow_start_route fl (the (d_first_page graph))
                        else done_with ()))))"
  define after_hook where "after_hook = (\<lambda>fl disp.
      and_then list_intents (\<lambda>ii. and_then (list_pages fl) (\<lambda>pi. tail fl disp ii pi)))"
  define hook where "hook =
      (if needs_dispatcher graph
       then and_then
              (upsert_webhook (U ''Dispatcher'') (dispatcher_url cfg)
                 (header_map (dispatcher_header cfg)))
              (\<lambda>name. done_with (Some name))
       else done_with None)"
  have steps: "upload_steps cfg graph name
      = and_then (upsert_flow name) (\<lambda>fl. and_then hook (after_hook fl))"
    unfolding upload_steps_def needs_dispatcher_def [symmetric] hook_def after_hook_def tail_def
    by (rule refl)
  have T: "quiet sd (snd (tail flow disp ii pi sd))"
    if "\<forall>entry \<in> set (d_pages graph). fst entry \<in> fst ` set pi"
      and "\<forall>entry \<in> set (d_intents graph). fst entry \<in> fst ` set ii"
    for disp ii pi sd
    using quiet_tail [OF that] unfolding tail_def by (simp add: step_keeps_def)
  have AH: "quiet sb (snd (after_hook flow disp sb))"
    if u: "uploaded graph name flow sb" and l: "unlimited sb" for disp sb
    unfolding after_hook_def
  proof (rule step_at [OF transp_quiet])
    show "quiet sb (snd (list_intents sb))"
      using quiet_lists(3) by (simp add: step_keeps_def)
  next
    fix ii sc
    assume c: "list_intents sb = (Inr ii, sc)"
    have qc: "quiet sb sc" using step_keepsD [OF quiet_lists(3) c] .
    have 2: "\<forall>entry \<in> set (d_intents graph). fst entry \<in> fst ` set ii"
      using u list_intents_result(3) [OF c unlimitedD [OF l]] by (simp add: uploaded_def)
    have uc: "uploaded graph name flow sc" using u qc by (rule uploaded_quiet_pres)
    have lc: "unlimited sc" using l qc by (rule unlimited_quiet)
    show "quiet sc (snd (and_then (list_pages flow) (\<lambda>pi. tail flow disp ii pi) sc))"
    proof (rule step_at [OF transp_quiet])
      show "quiet sc (snd (list_pages flow sc))"
        using quiet_lists(4) by (simp add: step_keeps_def)
    next
      fix pi sd
      assume d: "list_pages flow sc = (Inr pi, sd)"
      have 1: "\<forall>entry \<in> set (d_pages graph). fst entry \<in> fst ` set pi"
        using uc list_pages_result(3) [OF d unlimitedD [OF lc]] by (simp add: uploaded_def)
      show "quiet sd (snd (tail flow disp ii pi sd))" using 1 2 by (rule T)
    qed
  qed
  have H: "quiet sa (snd (and_then hook (after_hook flow) sa))"
    if u: "uploaded graph name flow sa" and l: "unlimited sa" for sa
  proof (rule step_at [OF transp_quiet])
    show qh: "quiet sa (snd (hook sa))"
    proof (cases "needs_dispatcher graph")
      case True
      then have w: "U ''Dispatcher'' \<in> webhook_names sa" using u by (simp add: uploaded_def)
      have "quiet sa (snd (and_then
              (upsert_webhook (U ''Dispatcher'') (dispatcher_url cfg)
                 (header_map (dispatcher_header cfg)))
              (\<lambda>name. done_with (Some name)) sa))"
      proof (rule step_at [OF transp_quiet])
        show "quiet sa (snd (upsert_webhook (U ''Dispatcher'') (dispatcher_url cfg)
            (header_map (dispatcher_header cfg)) sa))"
          using w unlimitedD [OF l] by (rule upsert_webhook_found)
      next
        fix x s1
        show "quiet s1 (snd (done_with (Some x) s1))" by (simp add: done_with_def quiet_def)
      qed
      then show ?thesis using True by (simp add: hook_def)
    next
      case False
      then show ?thesis by (simp add: hook_def done_with_def quiet_def)
    qed
    fix disp sb
    assume "hook sa = (Inr disp, sb)"
    with qh have q: "quiet sa sb" by simp
    show "quiet sb (snd (after_hook flow disp sb))"
      using uploaded_quiet_pres [OF u q] unlimited_quiet [OF l q] by (rule AH)
  qed
  have idx: "map_of (index_by_name fst snd (flow_ids s)) name = Some flow"
    using up by (simp add: uploaded_def)
  note F = upsert_flow_found [OF idx unlimitedD [OF ul] miss]
  have "quiet s (snd (and_then (upsert_flow name) (\<lambda>fl. and_then hook (after_hook fl)) s))"
  proof (rule step_at [OF transp_quiet])
    show "quiet s (snd (upsert_flow name s))" by (rule F(1))
  next
    fix x sa
    assume a: "upsert_flow name s = (Inr x, sa)"
    have x: "x = flow" using a by (rule F(2))
    have q: "quiet s sa" using F(1) a by simp
    show "quiet sa (snd (and_then hook (after_hook x) sa))"
      unfolding x using uploaded_quiet_pres [OF up q] unlimited_quiet [OF ul q] by (rule H)
  qed
  then show ?thesis unfolding steps .
qed

text \<open>
  When an upload by a new uploader has succeeded and, from then on, no call of
  \<open>_api_request\<close> hands back a 429 response, an upload of the same graph under the
  same names by another new uploader creates nothing: flow by flow, webhook by
  webhook, intent by intent and page by page the display names on the remote agent are
  what they were after the first upload, in the same number; and this whichever calls
  of the second upload raise. Flow and webhook are found by their display names in
  the listings, and every page and intent of the graph is found and patched.
\<close>

lemma upload_again_creates_nothing:
  assumes first: "upload_single_flow cfg graph flow_name derived_name s0 = (Uploaded n, s1)"
    and new: "cache_flows s0 = []" "cache_webhooks s0 = []"
    and ul: "unlimited s1"
  shows "remote_names
           (snd (upload_single_flow cfg graph flow_name derived_name (new_uploader s1)))
         = remote_names s1"
proof -
  define name where "name = (if truthy flow_name then the flow_name else derived_name)"
  from first obtain u where "upload_steps cfg graph name s0 = (Inr u, s1)"
    unfolding upload_single_flow_def Let_def name_def [symmetric]
    by (auto split: prod.splits sum.splits)
  then obtain flow where "uploaded graph name flow s1"
    using upload_steps_uploaded new by blast
  then have u: "uploaded graph name flow (new_uploader s1)"
    by (simp add: uploaded_def new_uploader_def flow_ids_def webhook_names_def page_names_def
        intent_names_def)
  have l: "unlimited (new_uploader s1)"
    using ul by (simp add: unlimited_def new_uploader_def)
  have m: "map_of (cache_flows (new_uploader s1)) name = None"
    by (simp add: new_uploader_def)
  have "quiet (new_uploader s1) (snd (upload_steps cfg graph name (new_uploader s1)))"
    using u l m by (rule uploaded_quiet)
  moreover have "snd (upload_single_flow cfg graph flow_name derived_name (new_uploader s1))
      = snd (upload_steps cfg graph name (new_uploader s1))"
    unfolding upload_single_flow_def Let_def name_def [symmetric]
    by (auto split: prod.splits sum.splits)
  ultimately show ?thesis by (simp add: quiet_def remote_names_def new_uploader_def)
qed

lemmas upload_eval_defs = upload_single_flow_def upload_steps_def and_then_def done_with_def
  api_call_def list_flows_def list_intents_def list_pages_def list_webhooks_def post_flow_def
  post_webhook_def post_intent_def post_page_def patch_intent_def patch_page_entry_def
  patch_page_routes_def patch_flow_routes_def upsert_flow_def upsert_webhook_def
  upsert_intent_def upsert_page_def patch_flow_start_route_def index_by_name_def
  routes_by_page_def compose_route_def header_map_def entry_messages_def falsy_dict_def
  truthy_def lookup_default_def fresh_agent_def example_graph_def example_config_def
  empty_data_def remote_names_def List.map_filter_def Let_def lit_defs no_items_def
  no_name_def new_uploader_def call_ends_limiting

text \<open>The example graph uploaded twice, each time by a new uploader, to an agent that
  starts empty, when the platform answers every call: the second upload creates
  nothing.\<close>

lemma upload_twice_answered:
  "fst (upload_single_flow example_config example_graph None (U ''Demo'')
          (new_uploader (snd (upload_single_flow example_config example_graph None (U ''Demo'')
             (fresh_agent (limiting [])))))) = Uploaded (U ''Demo'')
   \<and> remote_names (snd (upload_single_flow example_config example_graph None (U ''Demo'')
          (new_uploader (snd (upload_single_flow example_config example_graph None (U ''Demo'')
             (fresh_agent (limiting [])))))))
       = ([U ''Demo''], [U ''Dispatcher''], [U ''Go :: Yes''], [(0, U ''A''), (0, U ''B'')])"
  by (simp add: upload_eval_defs)

text \<open>
  C1 on the example graph, uploaded twice under the flow name \<open>Demo\<close> to an agent
  that starts empty, each time by a new uploader. The platform answers the fourteen
  calls of the first upload. It answers the three attempts of the next call, the
  listing of the flows by the second upload, with status 429, and every call after
  that. \<open>_api_request\<close> hands the 429 response back, \<open>list_by_name\<close> reads no flow
  from it, and the second upload sends the POST that creates a second flow \<open>Demo\<close>
  and then creates, in that flow, the pages \<open>A\<close> and \<open>B\<close> a second time; both uploads
  report success. The claim has the flow found by its display name and nothing
  created.
\<close>

theorem upload_twice_after_rate_limit:
  "fst (upload_single_flow example_config example_graph None (U ''Demo'')
          (fresh_agent (limiting [14]))) = Uploaded (U ''Demo'')
   \<and> remote_names (snd (upload_single_flow example_config example_graph None (U ''Demo'')
          (fresh_agent (limiting [14]))))
       = ([U ''Demo''], [U ''Dispatcher''], [U ''Go :: Yes''], [(0, U ''A''), (0, U ''B'')])
   \<and> length (rm_log (snd (upload_single_flow example_config example_graph None (U ''Demo'')
          (fresh_agent (limiting [14]))))) = 14
   \<and> fst (upload_single_flow example_config example_graph None (U ''Demo'')
          (new_uploader (snd (upload_single_flow example_config example_graph None (U ''Demo'')
             (fresh_agent (limiting [14])))))) = Uploaded (U ''Demo'')
   \<and> take 2 (drop 14 (rm_log (snd (upload_single_flow example_config example_graph None
          (U ''Demo'')
          (new_uploader (snd (upload_single_flow example_config example_graph None (U ''Demo'')
             (fresh_agent (limiting [14])))))))))
       = [GetFlows, PostFlow (U ''Demo'')]
   \<and> remote_names (snd (upload_single_flow example_config example_graph None (U ''Demo'')
          (new_uploader (snd (upload_single_flow example_config example_graph None (U ''Demo'')
             (fresh_agent (limiting [14])))))))
       = ([U ''Demo'', U ''Demo''], [U ''Dispatcher''], [U ''Go :: Yes''],
          [(0, U ''A''), (0, U ''B''), (5, U ''A''), (5, U ''B'')])"
  by (simp add: upload_eval_defs)

end
